theory Spec2Isabelle
  imports Complex_Main "HOL-Library.Word"
begin

section \<open>Go strings as byte lists\<close>

text \<open>
  A Go \<^verbatim>\<open>string\<close> is a sequence of bytes, here a \<^typ>\<open>string\<close> (a list of 8-bit
  characters). The functions of package \<^verbatim>\<open>strings\<close> that the policy core calls are
  written out on byte lists with their Go argument order.
\<close>

fun HasPrefix :: "string \<Rightarrow> string \<Rightarrow> bool" where
  "HasPrefix s [] = True"
| "HasPrefix [] (p # ps) = False"
| "HasPrefix (c # cs) (p # ps) = (c = p \<and> HasPrefix cs ps)"

definition HasSuffix :: "string \<Rightarrow> string \<Rightarrow> bool" where
  "HasSuffix s suffix = HasPrefix (rev s) (rev suffix)"

definition TrimSuffix :: "string \<Rightarrow> string \<Rightarrow> string" where
  "TrimSuffix s suffix =
     (if HasSuffix s suffix then take (length s - length suffix) s else s)"

fun Contains :: "string \<Rightarrow> string \<Rightarrow> bool" where
  "Contains [] substr = (substr = [])"
| "Contains (c # cs) substr = (HasPrefix (c # cs) substr \<or> Contains cs substr)"

text \<open>\<^verbatim>\<open>strings.SplitN(s, sep, 2)\<close> for a one-byte separator: at most two parts, cut at
  the first separator.\<close>

definition SplitN2 :: "string \<Rightarrow> char \<Rightarrow> string list" where
  "SplitN2 s sep =
     (if sep \<in> set s
      then [takeWhile (\<lambda>c. c \<noteq> sep) s, tl (dropWhile (\<lambda>c. c \<noteq> sep) s)]
      else [s])"

section \<open>Capability claims (package capability)\<close>

text \<open>Times are seconds on the real line; \<^verbatim>\<open>float64\<close> quantities are real numbers.\<close>

record Constraints =
  PathPrefix :: string
  RateLimit :: string

record Capability =
  ID :: string
  Subject :: string
  IssuedAt :: real
  ExpiresAt :: real
  Service :: string
  Actions :: "string list"
  Rights :: "string list"
  Constraints :: Constraints

text \<open>A JSON-decoded value of Go type \<^verbatim>\<open>any\<close>, as held in \<^verbatim>\<open>map[string]any\<close>.\<close>

datatype anyval =
    VString string
  | VNumber real
  | VBool bool
  | VNull
  | VList "anyval list"
  | VObject "(string \<times> anyval) list"

type_synonym anymap = "string \<rightharpoonup> anyval"

text \<open>The type assertion \<^verbatim>\<open>v, _ := m[k].(string)\<close>: the zero value when the key is
  missing (also in a nil map) or holds another type.\<close>

definition asString :: "anymap \<Rightarrow> string \<Rightarrow> string" where
  "asString m k = (case m k of Some (VString s) \<Rightarrow> s | _ \<Rightarrow> [])"

definition asFloat64 :: "anymap \<Rightarrow> string \<Rightarrow> real" where
  "asFloat64 m k = (case m k of Some (VNumber x) \<Rightarrow> x | _ \<Rightarrow> 0)"

section \<open>The standard library and the clock as parameters\<close>

text \<open>
  The policy core calls four functions of the Go standard library whose results depend on
  the platform or on a long grammar. They are parameters of the model: every theorem below
  holds for whatever these functions return.
  \<^item> \<^verbatim>\<open>filepath.Abs\<close>: \<open>Inl\<close> is the text of its error, \<open>Inr\<close> the absolute path;
  \<^item> \<^verbatim>\<open>strconv.ParseFloat(s, 64)\<close>: \<open>None\<close> when it returns an error;
  \<^item> \<^verbatim>\<open>strings.TrimSpace\<close>;
  \<^item> \<^verbatim>\<open>strconv.Quote\<close>, the \<^verbatim>\<open>%q\<close> verb of \<^verbatim>\<open>fmt.Sprintf\<close>.
\<close>

record golib =
  filepath_Abs :: "string \<Rightarrow> string + string"
  strconv_ParseFloat :: "string \<Rightarrow> real option"
  strings_TrimSpace :: "string \<Rightarrow> string"
  strconv_Quote :: "string \<Rightarrow> string"

text \<open>The readings of \<^verbatim>\<open>time.Now()\<close> that one request can take, in program order:
  in \<^verbatim>\<open>IsExpired\<close>, when a rate bucket is created, in the refill step, and for the
  \<^verbatim>\<open>createdAt\<close> field of a new handle entry.\<close>

record clock =
  now_expired :: real
  now_bucket :: real
  now_refill :: real
  now_created :: real

definition Separator :: char where
  "Separator = CHR ''/''"

section \<open>Policy core (package policy)\<close>

definition CodeUnauthenticated :: int where "CodeUnauthenticated = 2"
definition CodePermissionDenied :: int where "CodePermissionDenied = 3"
definition CodeResourceExhausted :: int where "CodeResourceExhausted = 7"

record PolicyError =
  Code :: int
  Name :: string
  Message :: string

text \<open>A Go \<^verbatim>\<open>error\<close> result is a \<^typ>\<open>PolicyError option\<close>: \<open>None\<close> is \<^verbatim>\<open>nil\<close>, the request
  is allowed.\<close>

fun hasRight :: "string list \<Rightarrow> string \<Rightarrow> bool" where
  "hasRight [] required = False"
| "hasRight (r # rights) required = (if r = required then True else hasRight rights required)"

fun hasAction :: "string list \<Rightarrow> string \<Rightarrow> bool" where
  "hasAction [] required = False"
| "hasAction (a # actions) required = (if a = required then True else hasAction actions required)"

definition enforcePathPrefix :: "golib \<Rightarrow> string \<Rightarrow> anymap \<Rightarrow> PolicyError option" where
  "enforcePathPrefix L prefix ctx =
     (if prefix = [] then None
      else let path = asString ctx ''path'' in
        if path = [] then None
        else if Contains path ''..'' then
          Some \<lparr>Code = CodePermissionDenied, Name = ''PERMISSION_DENIED'',
                Message = ''path traversal not allowed''\<rparr>
        else case filepath_Abs L path of
          Inl err \<Rightarrow>
            Some \<lparr>Code = CodePermissionDenied, Name = ''PERMISSION_DENIED'',
                  Message = ''cannot resolve path: '' @ err\<rparr>
        | Inr absPath \<Rightarrow>
           (case filepath_Abs L prefix of
              Inl err \<Rightarrow>
                Some \<lparr>Code = CodePermissionDenied, Name = ''PERMISSION_DENIED'',
                      Message = ''cannot resolve prefix: '' @ err\<rparr>
            | Inr absPrefix \<Rightarrow>
                if absPath \<noteq> absPrefix \<and> \<not> HasPrefix absPath (absPrefix @ [Separator]) then
                  Some \<lparr>Code = CodePermissionDenied, Name = ''PERMISSION_DENIED'',
                        Message = ''path '' @ absPath @ '' outside allowed prefix '' @ absPrefix\<rparr>
                else None))"

text \<open>The token bucket of one capability, and the process-wide limiter: the map
  \<^verbatim>\<open>globalLimiter.buckets\<close>, passed in and returned. The mutex makes each call atomic.\<close>

record bucket =
  b_tokens :: real
  b_rate :: real
  b_last :: real

type_synonym rateLimiter = "string \<rightharpoonup> bucket"

definition parseRate :: "golib \<Rightarrow> string \<Rightarrow> real \<times> bool" where
  "parseRate L s0 =
     (let s = strings_TrimSpace L s0 in
      if \<not> HasSuffix s ''rps'' then (0, False)
      else case strconv_ParseFloat L (TrimSuffix s ''rps'') of
             None \<Rightarrow> (0, False)
           | Some n \<Rightarrow> if n \<le> 0 then (0, False) else (n, True))"

definition enforceRateLimit ::
  "golib \<Rightarrow> clock \<Rightarrow> string \<Rightarrow> string \<Rightarrow> rateLimiter \<Rightarrow> PolicyError option \<times> rateLimiter" where
  "enforceRateLimit L clk capID rateLimit buckets =
     (if rateLimit = [] then (None, buckets)
      else case parseRate L rateLimit of (rate, ok) \<Rightarrow>
        if \<not> ok then (None, buckets)
        else
          let b = (case buckets capID of
                     Some b \<Rightarrow> b
                   | None \<Rightarrow> \<lparr>b_tokens = rate, b_rate = rate, b_last = now_bucket clk\<rparr>);
              now = now_refill clk;
              refilled = b_tokens b + (now - b_last b) * b_rate b;
              capped = (if refilled > b_rate b then b_rate b else refilled)
          in if capped < 1 then
               (Some \<lparr>Code = CodeResourceExhausted, Name = ''RESOURCE_EXHAUSTED'',
                      Message = ''rate limit exceeded''\<rparr>,
                buckets(capID \<mapsto> b\<lparr>b_tokens := capped, b_last := now\<rparr>))
             else (None, buckets(capID \<mapsto> b\<lparr>b_tokens := capped - 1, b_last := now\<rparr>)))"

definition enforceConstraints ::
  "golib \<Rightarrow> clock \<Rightarrow> Capability \<Rightarrow> anymap \<Rightarrow> rateLimiter \<Rightarrow> PolicyError option \<times> rateLimiter" where
  "enforceConstraints L clk claims ctx buckets =
     (case enforcePathPrefix L (PathPrefix (Constraints claims)) ctx of
        Some err \<Rightarrow> (Some err, buckets)
      | None \<Rightarrow> enforceRateLimit L clk (ID claims) (RateLimit (Constraints claims)) buckets)"

definition Authorize ::
  "golib \<Rightarrow> clock \<Rightarrow> Capability option \<Rightarrow> string \<Rightarrow> anymap \<Rightarrow> rateLimiter
     \<Rightarrow> PolicyError option \<times> rateLimiter" where
  "Authorize L clk claims method ctx buckets =
     (case claims of
        None \<Rightarrow>
          (Some \<lparr>Code = CodeUnauthenticated, Name = ''UNAUTHENTICATED'',
                 Message = ''token required''\<rparr>, buckets)
      | Some c \<Rightarrow>
          (case SplitN2 method (CHR ''.'') of
             [service, action] \<Rightarrow>
               if Service c \<noteq> service then
                 (Some \<lparr>Code = CodePermissionDenied, Name = ''PERMISSION_DENIED'',
                        Message = ''token not valid for service '' @ strconv_Quote L service\<rparr>,
                  buckets)
               else if \<not> hasRight (Rights c) method \<and> \<not> hasAction (Actions c) action then
                 (Some \<lparr>Code = CodePermissionDenied, Name = ''PERMISSION_DENIED'',
                        Message = ''method '' @ strconv_Quote L method @ '' not permitted''\<rparr>,
                  buckets)
               else enforceConstraints L clk c ctx buckets
           | _ \<Rightarrow>
               (Some \<lparr>Code = CodePermissionDenied, Name = ''PERMISSION_DENIED'',
                      Message = ''invalid method format: '' @ strconv_Quote L method\<rparr>,
                buckets)))"

section \<open>A reference instance of the library\<close>

text \<open>
  For concrete runs the library parameters are instantiated with a Unix model.
  \<^item> \<open>unixAbs cwd\<close> is \<^verbatim>\<open>filepath.Abs\<close> in working directory \<open>cwd\<close>: an absolute path is
    cleaned, a relative one is joined to \<open>cwd\<close> and cleaned. \<open>Clean\<close> is the lexical
    normal form of \<^verbatim>\<open>filepath.Clean\<close>: empty and \<^verbatim>\<open>.\<close> elements are dropped, \<^verbatim>\<open>..\<close>
    removes the element before it (nothing at the root) and is kept at the front of a
    relative path, and the empty result is \<^verbatim>\<open>.\<close>.
  \<^item> \<open>parseDecimal\<close> is \<^verbatim>\<open>strconv.ParseFloat\<close> on its plain decimal inputs: an optional
    sign, digits, an optional fraction. Exponents, hexadecimal floats, infinities and NaN
    are outside this instance.
  \<^item> \<open>trimSpaceASCII\<close> is \<^verbatim>\<open>strings.TrimSpace\<close> on ASCII white space.
  \<^item> \<open>quotePlain\<close> is \<^verbatim>\<open>strconv.Quote\<close> on printable ASCII without quote or backslash.
\<close>

fun splitOn :: "char \<Rightarrow> string \<Rightarrow> string list" where
  "splitOn sep [] = [[]]"
| "splitOn sep (c # cs) =
     (if c = sep then [] # splitOn sep cs
      else (case splitOn sep cs of w # ws \<Rightarrow> (c # w) # ws | [] \<Rightarrow> [[c]]))"

fun cleanStep :: "bool \<Rightarrow> string list \<Rightarrow> string \<Rightarrow> string list" where
  "cleanStep rooted stack seg =
     (if seg = ''..'' then
        (case stack of
           [] \<Rightarrow> if rooted then [] else [''..'']
         | t # rest \<Rightarrow> if t = ''..'' then seg # stack else rest)
      else seg # stack)"

fun joinSegs :: "string list \<Rightarrow> string" where
  "joinSegs [] = []"
| "joinSegs [s] = s"
| "joinSegs (s # t # ss) = s @ [Separator] @ joinSegs (t # ss)"

definition Clean :: "string \<Rightarrow> string" where
  "Clean path =
     (if path = [] then ''.''
      else let rooted = (hd path = Separator);
               segs = filter (\<lambda>s. s \<noteq> [] \<and> s \<noteq> ''.'') (splitOn Separator path);
               out = joinSegs (rev (foldl (cleanStep rooted) [] segs))
           in if rooted then Separator # out else if out = [] then ''.'' else out)"

definition unixAbs :: "string \<Rightarrow> string \<Rightarrow> string + string" where
  "unixAbs cwd path =
     (if HasPrefix path [Separator] then Inr (Clean path)
      else if path = [] then Inr (Clean cwd)
      else Inr (Clean (cwd @ [Separator] @ path)))"

definition isDigit :: "char \<Rightarrow> bool" where
  "isDigit c = (48 \<le> (of_char c :: nat) \<and> (of_char c :: nat) \<le> 57)"

definition digitsValue :: "string \<Rightarrow> nat" where
  "digitsValue ds = foldl (\<lambda>acc c. 10 * acc + (of_char c - 48)) 0 ds"

definition parseDecimal :: "string \<Rightarrow> real option" where
  "parseDecimal s =
     (let neg = (s \<noteq> [] \<and> hd s = CHR ''-'');
          body = (if s \<noteq> [] \<and> (hd s = CHR ''-'' \<or> hd s = CHR ''+'') then tl s else s);
          ip = takeWhile isDigit body;
          rest = dropWhile isDigit body;
          fp = (if rest = [] then [] else tl rest);
          ok = ((rest = [] \<or> hd rest = CHR ''.'') \<and> list_all isDigit fp \<and> (ip \<noteq> [] \<or> fp \<noteq> []));
          magnitude = real (digitsValue (ip @ fp)) / 10 ^ length fp
      in if ok then Some (if neg then - magnitude else magnitude) else None)"

definition isSpaceASCII :: "char \<Rightarrow> bool" where
  "isSpaceASCII c = (c \<in> set [CHR '' '', CHR 0x09, CHR 0x0A, CHR 0x0B, CHR 0x0C, CHR 0x0D])"

definition trimSpaceASCII :: "string \<Rightarrow> string" where
  "trimSpaceASCII s = rev (dropWhile isSpaceASCII (rev (dropWhile isSpaceASCII s)))"

definition quotePlain :: "string \<Rightarrow> string" where
  "quotePlain s = [CHR 0x22] @ s @ [CHR 0x22]"

definition unixLib :: "string \<Rightarrow> golib" where
  "unixLib cwd =
     \<lparr>filepath_Abs = unixAbs cwd, strconv_ParseFloat = parseDecimal,
      strings_TrimSpace = trimSpaceASCII, strconv_Quote = quotePlain\<rparr>"

text \<open>A clock on which no time passes during the request.\<close>

definition clockAt :: "real \<Rightarrow> clock" where
  "clockAt t = \<lparr>now_expired = t, now_bucket = t, now_refill = t, now_created = t\<rparr>"

section \<open>Sample data for concrete runs\<close>

text \<open>The token of the end-to-end scenarios: service \<^verbatim>\<open>fs\<close>, the three rights, prefix
  \<^verbatim>\<open>/tmp\<close>, two requests per second.\<close>

definition demoClaims :: Capability where
  "demoClaims =
     \<lparr>ID = ''c1'', Subject = ''capability'', IssuedAt = 0, ExpiresAt = 3600,
      Service = ''fs'', Actions = [], Rights = [''fs.open'', ''fs.read'', ''fs.list''],
      Constraints = \<lparr>PathPrefix = ''/tmp'', RateLimit = ''2rps''\<rparr>\<rparr>"

section \<open>Consecutive rate-limit calls\<close>

text \<open>The error of an empty bucket, and \<open>n\<close> calls of \<open>enforceRateLimit\<close> one after
  another while the clock stands at \<open>t\<close>: the results in order and the final limiter.\<close>

definition exhausted :: PolicyError where
  "exhausted = \<lparr>Code = 7, Name = ''RESOURCE_EXHAUSTED'', Message = ''rate limit exceeded''\<rparr>"

fun callsAt ::
  "golib \<Rightarrow> real \<Rightarrow> string \<Rightarrow> string \<Rightarrow> nat \<Rightarrow> rateLimiter \<Rightarrow> PolicyError option list \<times> rateLimiter" where
  "callsAt L t capID rateLimit 0 buckets = ([], buckets)"
| "callsAt L t capID rateLimit (Suc n) buckets =
     (case enforceRateLimit L (clockAt t) capID rateLimit buckets of
        (r, buckets') \<Rightarrow>
          (case callsAt L t capID rateLimit n buckets' of
             (rs, buckets'') \<Rightarrow> (r # rs, buckets'')))"

section \<open>Decimal printing\<close>

text \<open>The \<^verbatim>\<open>%d\<close> verb and \<^verbatim>\<open>strconv.Itoa\<close> on a number that is not negative.\<close>

function Itoa :: "nat \<Rightarrow> string" where
  "Itoa n = (if n < 10 then [char_of (48 + n)] else Itoa (n div 10) @ [char_of (48 + n mod 10)])"
  by pat_completeness auto
termination
  by (relation "measure id") auto

declare Itoa.simps [simp del]

section \<open>Unpadded URL-safe base64 (base64.RawURLEncoding)\<close>

text \<open>
  The token codec calls \<^verbatim>\<open>base64.RawURLEncoding\<close> of the Go standard library: the URL
  alphabet, no padding, and the default decoder, which is not strict. As the library
  documents, that decoder skips carriage returns and line feeds, reports the offset of
  the first byte outside the alphabet, rejects an input whose last group is a single
  character, and, in a last group of two or three characters, does not look at the bits
  that fall outside the last whole byte. Bytes are numbers below 256 here.
\<close>

definition encodeURL :: string where
  "encodeURL = ''ABCDEFGHIJKLMNOPQRSTUVWXYZabcdefghijklmnopqrstuvwxyz0123456789-_''"

fun indexOf :: "char list \<Rightarrow> char \<Rightarrow> nat option" where
  "indexOf [] c = None"
| "indexOf (x # xs) c = (if x = c then Some 0 else map_option Suc (indexOf xs c))"

definition decodeMap :: "char \<Rightarrow> nat option" where
  "decodeMap c = indexOf encodeURL c"

fun sextets :: "nat list \<Rightarrow> nat list" where
  "sextets (a # b # c # bs) =
     [a div 4, (a mod 4) * 16 + b div 16, (b mod 16) * 4 + c div 64, c mod 64] @ sextets bs"
| "sextets [a, b] = [a div 4, (a mod 4) * 16 + b div 16, (b mod 16) * 4]"
| "sextets [a] = [a div 4, (a mod 4) * 16]"
| "sextets [] = []"

definition EncodeToString :: "string \<Rightarrow> string" where
  "EncodeToString src = map (\<lambda>v. encodeURL ! v) (sextets (map of_char src))"

fun scanSextets :: "string \<Rightarrow> nat \<Rightarrow> nat + nat list" where
  "scanSextets [] i = Inr []"
| "scanSextets (c # cs) i =
     (case decodeMap c of
        Some v \<Rightarrow> (case scanSextets cs (Suc i) of Inl e \<Rightarrow> Inl e | Inr vs \<Rightarrow> Inr (v # vs))
      | None \<Rightarrow> if c = CHR 0x0A \<or> c = CHR 0x0D then scanSextets cs (Suc i) else Inl i)"

fun octets :: "nat list \<Rightarrow> nat list option" where
  "octets (a # b # c # d # vs) =
     map_option (\<lambda>bs. [a * 4 + b div 16, (b mod 16) * 16 + c div 4, (c mod 4) * 64 + d] @ bs)
       (octets vs)"
| "octets [a, b, c] = Some [a * 4 + b div 16, (b mod 16) * 16 + c div 4]"
| "octets [a, b] = Some [a * 4 + b div 16]"
| "octets [a] = None"
| "octets [] = Some []"

text \<open>\<open>Inl n\<close> is \<^verbatim>\<open>CorruptInputError(n)\<close>.\<close>

definition DecodeString :: "string \<Rightarrow> nat + string" where
  "DecodeString s =
     (case scanSextets s 0 of
        Inl i \<Rightarrow> Inl i
      | Inr vs \<Rightarrow>
          (case octets vs of
             None \<Rightarrow> Inl (length s - 1)
           | Some bs \<Rightarrow> Inr (map char_of bs)))"

definition CorruptInputError :: "nat \<Rightarrow> string" where
  "CorruptInputError n = ''illegal base64 data at input byte '' @ Itoa n"

section \<open>Token codec (package auth)\<close>

text \<open>
  JSON coding of the claims and the Ed25519 primitives are library parameters: keys,
  messages and signatures are byte strings; \<open>Inl\<close> carries the text of a JSON error.
\<close>

record cryptolib =
  json_Marshal :: "Capability \<Rightarrow> string + string"
  json_Unmarshal :: "string \<Rightarrow> string + Capability"
  ed25519_Sign :: "string \<Rightarrow> string \<Rightarrow> string"
  ed25519_Verify :: "string \<Rightarrow> string \<Rightarrow> string \<Rightarrow> bool"

definition SignatureSize :: nat where
  "SignatureSize = 64"

definition v2PublicHeader :: string where
  "v2PublicHeader = ''v2.public.''"

text \<open>\<^verbatim>\<open>binary.LittleEndian.PutUint64\<close> of a length: eight bytes, the low one first.\<close>

fun leBytes :: "nat \<Rightarrow> nat \<Rightarrow> string" where
  "leBytes 0 n = []"
| "leBytes (Suc k) n = char_of (n mod 256) # leBytes k (n div 256)"

definition le64 :: "nat \<Rightarrow> string" where
  "le64 n = leBytes 8 n"

fun paePieces :: "string list \<Rightarrow> string" where
  "paePieces [] = []"
| "paePieces (p # ps) = le64 (length p) @ p @ paePieces ps"

definition pae :: "string list \<Rightarrow> string" where
  "pae pieces = le64 (length pieces) @ paePieces pieces"

text \<open>\<open>Sign\<close> copies the signature into the \<open>SignatureSize\<close> bytes after the message:
  \<^verbatim>\<open>copy\<close> stops at the shorter of the two, and the buffer starts zeroed.\<close>

definition Sign :: "cryptolib \<Rightarrow> Capability \<Rightarrow> string \<Rightarrow> string + string" where
  "Sign K cap key =
     (case json_Marshal K cap of
        Inl err \<Rightarrow> Inl (''marshal capability: '' @ err)
      | Inr msg \<Rightarrow>
          let m2 = pae [v2PublicHeader, msg, []];
              sig = ed25519_Sign K key m2;
              body = msg @ take SignatureSize (sig @ replicate SignatureSize (CHR 0x00))
          in Inr (v2PublicHeader @ EncodeToString body))"

definition Verify :: "cryptolib \<Rightarrow> string \<Rightarrow> string \<Rightarrow> string + Capability" where
  "Verify K token key =
     (if \<not> HasPrefix token v2PublicHeader then Inl ''invalid token header''
      else case DecodeString (drop (length v2PublicHeader) token) of
        Inl n \<Rightarrow> Inl (''decode token: '' @ CorruptInputError n)
      | Inr decoded \<Rightarrow>
          if length decoded < SignatureSize then Inl ''token too short''
          else
            let msg = take (length decoded - SignatureSize) decoded;
                sig = drop (length decoded - SignatureSize) decoded;
                m2 = pae [v2PublicHeader, msg, []]
            in if \<not> ed25519_Verify K key m2 sig then Inl ''invalid signature''
               else (case json_Unmarshal K msg of
                       Inl err \<Rightarrow> Inl (''unmarshal capability: '' @ err)
                     | Inr cap \<Rightarrow> Inr cap))"

text \<open>\<^verbatim>\<open>IsExpired\<close>: \<^verbatim>\<open>time.Now().After(c.ExpiresAt)\<close>.\<close>

definition IsExpired :: "clock \<Rightarrow> Capability \<Rightarrow> bool" where
  "IsExpired clk c = (ExpiresAt c < now_expired clk)"

section \<open>IPC envelopes (package ipc)\<close>

record Request =
  V :: int
  ReqID :: string
  Method :: string
  Auth :: "string option"
  Params :: anymap

text \<open>\<open>Auth\<close> is the token of the \<^verbatim>\<open>auth\<close> object, \<open>None\<close> when the pointer is nil.\<close>

record ipcError =
  code :: int
  message :: string

record Response =
  RV :: int
  RReqID :: string
  OK :: bool
  Result :: "anyval option"
  Error :: "ipcError option"

definition ErrInvalidRequest :: int where "ErrInvalidRequest = 1"
definition ErrAuthRequired :: int where "ErrAuthRequired = 2"
definition ErrPermDenied :: int where "ErrPermDenied = 3"
definition ErrNotFound :: int where "ErrNotFound = 4"
definition ErrInternal :: int where "ErrInternal = 5"

definition SuccessResponse :: "string \<Rightarrow> anyval \<Rightarrow> Response" where
  "SuccessResponse reqID res =
     \<lparr>RV = 1, RReqID = reqID, OK = True, Result = Some res, Error = None\<rparr>"

definition ErrorResponse :: "string \<Rightarrow> int \<Rightarrow> string \<Rightarrow> Response" where
  "ErrorResponse reqID cd msg =
     \<lparr>RV = 1, RReqID = reqID, OK = False, Result = None,
      Error = Some \<lparr>code = cd, message = msg\<rparr>\<rparr>"

section \<open>The FS service (cmd/fs)\<close>

text \<open>
  The operating system is the environment of a request. An open file is a number. An
  error of package \<^verbatim>\<open>os\<close> is what the handlers look at: whether \<^verbatim>\<open>os.IsNotExist\<close> holds,
  and its text. \<open>file_ReadAt\<close> stands for the allocation of the buffer of \<^verbatim>\<open>int(size)\<close>
  bytes and the call \<^verbatim>\<open>ReadAt(buf, int64(offset))\<close>: the allocation can panic, the read
  can fail with an error other than end of file, or bytes are read.
\<close>

record oserr =
  isNotExist :: bool
  errText :: string

record dirEntry =
  d_name :: string
  d_isDir :: bool
  d_size :: "real option"

datatype readResult = ReadPanic | ReadError string | ReadData string

record env =
  e_lib :: golib
  e_crypto :: cryptolib
  e_pubKey :: string
  e_clock :: clock
  os_Open :: "string \<Rightarrow> oserr + nat"
  os_ReadDir :: "string \<Rightarrow> oserr + dirEntry list"
  file_ReadAt :: "nat \<Rightarrow> real \<Rightarrow> real \<Rightarrow> readResult"

text \<open>Every operation on the operating system is written to a log, newest first, so that
  "the file is not touched" is a statement about the state. \<open>FileCloseAll\<close> is the sweep
  of \<^verbatim>\<open>CloseAll\<close>, which closes the file of every entry.\<close>

datatype oscall =
    OsOpen string
  | OsReadDir string
  | FileReadAt nat real real
  | FileCloseAll

record handleEntry =
  e_file :: nat
  e_capID :: string
  e_path :: string
  e_createdAt :: real

record handleTable =
  handles :: "string \<rightharpoonup> handleEntry"
  revoked :: "string set"
  nextID :: "64 word"

text \<open>The state of the process: the handle table, the limiter of the policy package and
  the log of operating-system calls.\<close>

record fsState =
  table :: handleTable
  limiter :: rateLimiter
  oslog :: "oscall list"

definition newHandleTable :: handleTable where
  "newHandleTable = \<lparr>handles = Map.empty, revoked = {}, nextID = 0\<rparr>"

definition initState :: fsState where
  "initState = \<lparr>table = newHandleTable, limiter = Map.empty, oslog = []\<rparr>"

text \<open>\<^verbatim>\<open>handleTable.Open\<close>. A failed \<^verbatim>\<open>os.Open\<close> returns before the counter is touched.
  \<^verbatim>\<open>nextID.Add(1)\<close> wraps at \<open>2^64\<close>; an error of \<^verbatim>\<open>filepath.Abs\<close> is dropped and
  leaves the empty path.\<close>

definition handleTable_Open ::
  "env \<Rightarrow> string \<Rightarrow> string \<Rightarrow> fsState \<Rightarrow> (oserr + string) \<times> fsState" where
  "handleTable_Open E p cid s =
     (case os_Open E p of
        Inl err \<Rightarrow> (Inl err, s\<lparr>oslog := OsOpen p # oslog s\<rparr>)
      | Inr f \<Rightarrow>
          let absPath = (case filepath_Abs (e_lib E) p of Inr q \<Rightarrow> q | Inl err \<Rightarrow> []);
              n = nextID (table s) + 1;
              hid = ''h'' @ Itoa (unat n);
              entry = \<lparr>e_file = f, e_capID = cid, e_path = absPath,
                       e_createdAt = now_created (e_clock E)\<rparr>
          in (Inr hid,
              s\<lparr>table := (table s)\<lparr>nextID := n, handles := (handles (table s))(hid \<mapsto> entry)\<rparr>,
                oslog := OsOpen p # oslog s\<rparr>))"

definition handleTable_Get :: "handleTable \<Rightarrow> string \<Rightarrow> handleEntry option" where
  "handleTable_Get ht hid = handles ht hid"

definition handleTable_Revoke :: "string \<Rightarrow> handleTable \<Rightarrow> handleTable" where
  "handleTable_Revoke cid ht = ht\<lparr>revoked := insert cid (revoked ht)\<rparr>"

definition handleTable_IsRevoked :: "handleTable \<Rightarrow> string \<Rightarrow> bool" where
  "handleTable_IsRevoked ht cid = (cid \<in> revoked ht)"


text \<open>\<^verbatim>\<open>extractClaims\<close>: \<open>Inl\<close> is the error response, \<open>Inr None\<close> the nil claims of a
  request without a token.\<close>

definition extractClaims :: "env \<Rightarrow> Request \<Rightarrow> Response + Capability option" where
  "extractClaims E req =
     (case Auth req of
        None \<Rightarrow> Inr None
      | Some token \<Rightarrow>
          if token = [] then Inr None
          else (case Verify (e_crypto E) token (e_pubKey E) of
            Inl err \<Rightarrow> Inl (ErrorResponse (ReqID req) ErrAuthRequired (''invalid token: '' @ err))
          | Inr cap \<Rightarrow>
              if IsExpired (e_clock E) cap
              then Inl (ErrorResponse (ReqID req) ErrAuthRequired ''token expired'')
              else Inr (Some cap)))"

definition policyError :: "string \<Rightarrow> PolicyError \<Rightarrow> Response" where
  "policyError reqID pe = ErrorResponse reqID (Code pe) (Message pe)"

text \<open>A handler returns a response, or the goroutine panics (a nil claims pointer is
  dereferenced, or the read buffer cannot be allocated).\<close>

datatype reply = Reply Response | Panic

definition fs_open :: "env \<Rightarrow> Request \<Rightarrow> fsState \<Rightarrow> reply \<times> fsState" where
  "fs_open E req s =
     (case extractClaims E req of
        Inl errResp \<Rightarrow> (Reply errResp, s)
      | Inr claims \<Rightarrow>
          let p = asString (Params req) ''path'' in
          if p = [] then (Reply (ErrorResponse (ReqID req) ErrInvalidRequest ''missing path param''), s)
          else (case Authorize (e_lib E) (e_clock E) claims ''fs.open'' [''path'' \<mapsto> VString p] (limiter s) of
            (Some err, lm) \<Rightarrow> (Reply (policyError (ReqID req) err), s\<lparr>limiter := lm\<rparr>)
          | (None, lm) \<Rightarrow>
             (case claims of
                None \<Rightarrow> (Panic, s\<lparr>limiter := lm\<rparr>)
              | Some c \<Rightarrow>
                  if handleTable_IsRevoked (table s) (ID c)
                  then (Reply (ErrorResponse (ReqID req) ErrPermDenied ''capability revoked''),
                        s\<lparr>limiter := lm\<rparr>)
                  else (case handleTable_Open E p (ID c) (s\<lparr>limiter := lm\<rparr>) of
                    (Inl err, s') \<Rightarrow>
                      if isNotExist err
                      then (Reply (ErrorResponse (ReqID req) ErrNotFound ''file not found''), s')
                      else (Reply (ErrorResponse (ReqID req) ErrInternal (errText err)), s')
                  | (Inr hid, s') \<Rightarrow>
                      (Reply (SuccessResponse (ReqID req) (VObject [(''handle'', VString hid)])), s')))))"

definition fs_read :: "env \<Rightarrow> Request \<Rightarrow> fsState \<Rightarrow> reply \<times> fsState" where
  "fs_read E req s =
     (case extractClaims E req of
        Inl errResp \<Rightarrow> (Reply errResp, s)
      | Inr claims \<Rightarrow>
          (case Authorize (e_lib E) (e_clock E) claims ''fs.read'' Map.empty (limiter s) of
             (Some err, lm) \<Rightarrow> (Reply (policyError (ReqID req) err), s\<lparr>limiter := lm\<rparr>)
           | (None, lm) \<Rightarrow>
               let hid = asString (Params req) ''handle''; s1 = s\<lparr>limiter := lm\<rparr> in
               if hid = [] then (Reply (ErrorResponse (ReqID req) ErrInvalidRequest ''missing handle param''), s1)
               else (case handleTable_Get (table s) hid of
                 None \<Rightarrow> (Reply (ErrorResponse (ReqID req) ErrNotFound ''invalid handle''), s1)
               | Some entry \<Rightarrow>
                  (case claims of
                     None \<Rightarrow> (Panic, s1)
                   | Some c \<Rightarrow>
                       if e_capID entry \<noteq> ID c
                       then (Reply (ErrorResponse (ReqID req) ErrPermDenied
                                      ''handle not bound to this capability''), s1)
                       else if handleTable_IsRevoked (table s) (e_capID entry)
                       then (Reply (ErrorResponse (ReqID req) ErrPermDenied ''capability revoked''), s1)
                       else
                         let offset = asFloat64 (Params req) ''offset'';
                             size0 = asFloat64 (Params req) ''size'';
                             size = (if size0 \<le> 0 then 4096 else size0);
                             s2 = s1\<lparr>oslog := FileReadAt (e_file entry) size offset # oslog s1\<rparr>
                         in (case file_ReadAt E (e_file entry) size offset of
                              ReadPanic \<Rightarrow> (Panic, s2)
                            | ReadError err \<Rightarrow> (Reply (ErrorResponse (ReqID req) ErrInternal err), s2)
                            | ReadData buf \<Rightarrow>
                                (Reply (SuccessResponse (ReqID req)
                                   (VObject [(''data'', VString buf),
                                             (''bytes_read'', VNumber (real (length buf)))])), s2))))))"

definition listItem :: "dirEntry \<Rightarrow> anyval" where
  "listItem d =
     VObject ([(''name'', VString (d_name d)), (''is_dir'', VBool (d_isDir d))] @
              (case d_size d of Some n \<Rightarrow> [(''size'', VNumber n)] | None \<Rightarrow> []))"

definition fs_list :: "env \<Rightarrow> Request \<Rightarrow> fsState \<Rightarrow> reply \<times> fsState" where
  "fs_list E req s =
     (case extractClaims E req of
        Inl errResp \<Rightarrow> (Reply errResp, s)
      | Inr claims \<Rightarrow>
          let p = asString (Params req) ''path'' in
          if p = [] then (Reply (ErrorResponse (ReqID req) ErrInvalidRequest ''missing path param''), s)
          else (case Authorize (e_lib E) (e_clock E) claims ''fs.list'' [''path'' \<mapsto> VString p] (limiter s) of
            (Some err, lm) \<Rightarrow> (Reply (policyError (ReqID req) err), s\<lparr>limiter := lm\<rparr>)
          | (None, lm) \<Rightarrow>
             (case claims of
                None \<Rightarrow> (Panic, s\<lparr>limiter := lm\<rparr>)
              | Some c \<Rightarrow>
                  if handleTable_IsRevoked (table s) (ID c)
                  then (Reply (ErrorResponse (ReqID req) ErrPermDenied ''capability revoked''),
                        s\<lparr>limiter := lm\<rparr>)
                  else
                    let s' = s\<lparr>limiter := lm, oslog := OsReadDir p # oslog s\<rparr> in
                    (case os_ReadDir E p of
                      Inl err \<Rightarrow>
                        if isNotExist err
                        then (Reply (ErrorResponse (ReqID req) ErrNotFound ''directory not found''), s')
                        else (Reply (ErrorResponse (ReqID req) ErrInternal (errText err)), s')
                    | Inr entries \<Rightarrow>
                        (Reply (SuccessResponse (ReqID req)
                           (VObject [(''entries'',
                              if entries = [] then VNull else VList (map listItem entries))])), s')))))"

definition fs_revoke :: "Request \<Rightarrow> fsState \<Rightarrow> reply \<times> fsState" where
  "fs_revoke req s =
     (let cid = asString (Params req) ''cap_id'' in
      if cid = [] then (Reply (ErrorResponse (ReqID req) ErrInvalidRequest ''missing cap_id param''), s)
      else (Reply (SuccessResponse (ReqID req) (VObject [(''status'', VString ''revoked'')])),
            s\<lparr>table := handleTable_Revoke cid (table s)\<rparr>))"

text \<open>The dispatch of \<^verbatim>\<open>handleConn\<close> for one request, and a run of requests handled one
  after the other, each in its own environment.\<close>

definition serve :: "env \<Rightarrow> Request \<Rightarrow> fsState \<Rightarrow> reply \<times> fsState" where
  "serve E req s =
     (if V req \<noteq> 1
      then (Reply (ErrorResponse (ReqID req) ErrInvalidRequest ''unsupported protocol version''), s)
      else if Method req = ''fs.open'' then fs_open E req s
      else if Method req = ''fs.read'' then fs_read E req s
      else if Method req = ''fs.list'' then fs_list E req s
      else if Method req = ''fs.revoke'' then fs_revoke req s
      else (Reply (ErrorResponse (ReqID req) ErrInvalidRequest (''unknown method: '' @ Method req)), s))"

fun serveAll :: "(env \<times> Request) list \<Rightarrow> fsState \<Rightarrow> fsState" where
  "serveAll [] s = s"
| "serveAll ((E, req) # rest) s = serveAll rest (snd (serve E req s))"

section \<open>A sample environment\<close>

text \<open>
  Concrete runs need concrete library functions. \<open>stubCrypto\<close> stands in for
  \<^verbatim>\<open>encoding/json\<close> and \<^verbatim>\<open>crypto/ed25519\<close>: the claims are serialised to their id in braces and
  read back from a table of the two sample capabilities, and the 64-byte signature of a
  message under a key is the first 64 bytes of key, message and zero padding, accepted
  under the same key. It has the two properties of the real libraries that the round
  trip of a token rests on (a serialised capability is read back unchanged, a signature
  made with a key verifies under it) and no cryptographic strength.
\<close>

definition demoClaims2 :: Capability where
  "demoClaims2 = demoClaims\<lparr>ID := ''c2''\<rparr>"

definition stubSign :: "string \<Rightarrow> string \<Rightarrow> string" where
  "stubSign key m = take 64 (key @ m @ replicate 64 (CHR 0x00))"

definition stubCrypto :: cryptolib where
  "stubCrypto =
     \<lparr>json_Marshal = (\<lambda>c. Inr (''{'' @ ID c @ ''}'')),
      json_Unmarshal = (\<lambda>m. if m = ''{c1}'' then Inr demoClaims
                            else if m = ''{c2}'' then Inr demoClaims2
                            else Inl ''unexpected end of JSON input''),
      ed25519_Sign = stubSign,
      ed25519_Verify = (\<lambda>key m sig. sig = stubSign key m)\<rparr>"

definition demoKey :: string where
  "demoKey = ''0123456789abcdef0123456789abcdef''"

definition tokenOf :: "Capability \<Rightarrow> string" where
  "tokenOf c = (case Sign stubCrypto c demoKey of Inr t \<Rightarrow> t | Inl err \<Rightarrow> [])"

definition noEntry :: "string \<Rightarrow> oserr" where
  "noEntry p = \<lparr>isNotExist = True, errText = ''open '' @ p @ '': no such file or directory''\<rparr>"

text \<open>One file \<^verbatim>\<open>/tmp/x\<close> holding \<^verbatim>\<open>hello\<close>, in the directory \<^verbatim>\<open>/tmp\<close>; the clock stands
  at \<open>t\<close>.\<close>

definition demoEnv :: "real \<Rightarrow> env" where
  "demoEnv t =
     \<lparr>e_lib = unixLib ''/'', e_crypto = stubCrypto, e_pubKey = demoKey, e_clock = clockAt t,
      os_Open = (\<lambda>p. if p = ''/tmp/x'' then Inr 3 else Inl (noEntry p)),
      os_ReadDir = (\<lambda>p. if p = ''/tmp''
                         then Inr [\<lparr>d_name = ''x'', d_isDir = False, d_size = Some 5\<rparr>]
                         else Inl (noEntry p)),
      file_ReadAt = (\<lambda>f size offset. if f = 3 then ReadData ''hello''
                                       else ReadError ''bad file descriptor'')\<rparr>"

definition request :: "string \<Rightarrow> string \<Rightarrow> (string \<times> anyval) list \<Rightarrow> Request" where
  "request m token ps =
     \<lparr>V = 1, ReqID = ''r'', Method = m, Auth = (if token = [] then None else Some token),
      Params = map_of ps\<rparr>"

text \<open>Scenario states: \<open>afterOpen\<close> is the fresh service after the first sample capability
  has opened \<^verbatim>\<open>/tmp/x\<close> (handle \<^verbatim>\<open>h1\<close>); \<open>afterRevoke\<close> follows the revocation of that
  capability.\<close>

definition openReq :: Request where
  "openReq = request ''fs.open'' (tokenOf demoClaims) [(''path'', VString ''/tmp/x'')]"

definition readReq :: "Capability \<Rightarrow> Request" where
  "readReq c = request ''fs.read'' (tokenOf c) [(''handle'', VString ''h1'')]"

definition revokeReq :: Request where
  "revokeReq = request ''fs.revoke'' [] [(''cap_id'', VString ''c1'')]"

definition afterOpen :: fsState where
  "afterOpen = snd (serve (demoEnv 0) openReq initState)"

definition afterRevoke :: fsState where
  "afterRevoke = snd (serve (demoEnv 0) revokeReq afterOpen)"

definition demoEntry :: handleEntry where
  "demoEntry = \<lparr>e_file = 3, e_capID = ''c1'', e_path = ''/tmp/x'', e_createdAt = 0\<rparr>"

section \<open>Runs of handle-table operations\<close>








text \<open>The sample token with its last character changed from \<^verbatim>\<open>A\<close> to \<^verbatim>\<open>B\<close>.\<close>

definition flippedToken :: string where
  "flippedToken = butlast (tokenOf demoClaims) @ ''B''"

section \<open>Handlers run concurrently\<close>

text \<open>
  The server runs every connection in its own goroutine, and a handler holds no lock
  from one access of the shared state to the next: \<^verbatim>\<open>Authorize\<close> takes the mutex of the
  limiter, \<^verbatim>\<open>Get\<close> and \<^verbatim>\<open>IsRevoked\<close> each take and release the read lock of the table,
  \<^verbatim>\<open>os.Open\<close>, \<^verbatim>\<open>os.ReadDir\<close> and \<^verbatim>\<open>ReadAt\<close> run under no lock, \<^verbatim>\<open>nextID.Add(1)\<close> is an
  atomic add outside the lock, and the new entry is stored under the write lock. So a
  handler is a sequence of steps, one for each of these accesses, and between any two of
  them other connections can run. What is local to the handler (the verification of the
  token, the reading of the parameters, the building of the response) goes with the
  access that follows or precedes it.

  \<open>pending\<close> is the point a handler has reached, with the local variables it still
  needs; the name of a constructor says which access comes next.
\<close>

datatype pending =
    OpenRevoked string string
  | OpenFile string string
  | OpenCount string string nat
  | OpenInsert string string nat string
  | ListRevoked string string
  | ListDir string string
  | ReadGet "Capability option" string
  | ReadRevoked handleEntry
  | ReadFile handleEntry real real

text \<open>The first step of each handler: everything up to and including \<^verbatim>\<open>Authorize\<close>. The
  dereference \<^verbatim>\<open>claims.ID\<close> of \<^verbatim>\<open>fs.open\<close> and \<^verbatim>\<open>fs.list\<close> comes right after it.\<close>

definition fs_open_begin :: "env \<Rightarrow> Request \<Rightarrow> fsState \<Rightarrow> (reply + pending) \<times> fsState" where
  "fs_open_begin E req s =
     (case extractClaims E req of
        Inl errResp \<Rightarrow> (Inl (Reply errResp), s)
      | Inr claims \<Rightarrow>
          let p = asString (Params req) ''path'' in
          if p = [] then (Inl (Reply (ErrorResponse (ReqID req) ErrInvalidRequest ''missing path param'')), s)
          else (case Authorize (e_lib E) (e_clock E) claims ''fs.open'' [''path'' \<mapsto> VString p] (limiter s) of
            (Some err, lm) \<Rightarrow> (Inl (Reply (policyError (ReqID req) err)), s\<lparr>limiter := lm\<rparr>)
          | (None, lm) \<Rightarrow>
             (case claims of
                None \<Rightarrow> (Inl Panic, s\<lparr>limiter := lm\<rparr>)
              | Some c \<Rightarrow> (Inr (OpenRevoked p (ID c)), s\<lparr>limiter := lm\<rparr>))))"

definition fs_list_begin :: "env \<Rightarrow> Request \<Rightarrow> fsState \<Rightarrow> (reply + pending) \<times> fsState" where
  "fs_list_begin E req s =
     (case extractClaims E req of
        Inl errResp \<Rightarrow> (Inl (Reply errResp), s)
      | Inr claims \<Rightarrow>
          let p = asString (Params req) ''path'' in
          if p = [] then (Inl (Reply (ErrorResponse (ReqID req) ErrInvalidRequest ''missing path param'')), s)
          else (case Authorize (e_lib E) (e_clock E) claims ''fs.list'' [''path'' \<mapsto> VString p] (limiter s) of
            (Some err, lm) \<Rightarrow> (Inl (Reply (policyError (ReqID req) err)), s\<lparr>limiter := lm\<rparr>)
          | (None, lm) \<Rightarrow>
             (case claims of
                None \<Rightarrow> (Inl Panic, s\<lparr>limiter := lm\<rparr>)
              | Some c \<Rightarrow> (Inr (ListRevoked p (ID c)), s\<lparr>limiter := lm\<rparr>))))"

definition fs_read_begin :: "env \<Rightarrow> Request \<Rightarrow> fsState \<Rightarrow> (reply + pending) \<times> fsState" where
  "fs_read_begin E req s =
     (case extractClaims E req of
        Inl errResp \<Rightarrow> (Inl (Reply errResp), s)
      | Inr claims \<Rightarrow>
          (case Authorize (e_lib E) (e_clock E) claims ''fs.read'' Map.empty (limiter s) of
             (Some err, lm) \<Rightarrow> (Inl (Reply (policyError (ReqID req) err)), s\<lparr>limiter := lm\<rparr>)
           | (None, lm) \<Rightarrow>
               let hid = asString (Params req) ''handle''; s1 = s\<lparr>limiter := lm\<rparr> in
               if hid = [] then (Inl (Reply (ErrorResponse (ReqID req) ErrInvalidRequest ''missing handle param'')), s1)
               else (Inr (ReadGet claims hid), s1)))"

text \<open>The next step of a handler that has reached \<open>pending\<close>: the response, or the point
  reached after it.\<close>

fun advance :: "env \<Rightarrow> Request \<Rightarrow> pending \<Rightarrow> fsState \<Rightarrow> (reply + pending) \<times> fsState" where
  "advance E req (OpenRevoked p cid) s =
     (if handleTable_IsRevoked (table s) cid
      then (Inl (Reply (ErrorResponse (ReqID req) ErrPermDenied ''capability revoked'')), s)
      else (Inr (OpenFile p cid), s))"
| "advance E req (OpenFile p cid) s =
     (case os_Open E p of
        Inl err \<Rightarrow>
          if isNotExist err
          then (Inl (Reply (ErrorResponse (ReqID req) ErrNotFound ''file not found'')),
                s\<lparr>oslog := OsOpen p # oslog s\<rparr>)
          else (Inl (Reply (ErrorResponse (ReqID req) ErrInternal (errText err))),
                s\<lparr>oslog := OsOpen p # oslog s\<rparr>)
      | Inr f \<Rightarrow> (Inr (OpenCount p cid f), s\<lparr>oslog := OsOpen p # oslog s\<rparr>))"
| "advance E req (OpenCount p cid f) s =
     (let n = nextID (table s) + 1
      in (Inr (OpenInsert p cid f (''h'' @ Itoa (unat n))), s\<lparr>table := (table s)\<lparr>nextID := n\<rparr>\<rparr>))"
| "advance E req (OpenInsert p cid f hid) s =
     (let absPath = (case filepath_Abs (e_lib E) p of Inr q \<Rightarrow> q | Inl err \<Rightarrow> []);
          entry = \<lparr>e_file = f, e_capID = cid, e_path = absPath,
                   e_createdAt = now_created (e_clock E)\<rparr>
      in (Inl (Reply (SuccessResponse (ReqID req) (VObject [(''handle'', VString hid)]))),
          s\<lparr>table := (table s)\<lparr>handles := (handles (table s))(hid \<mapsto> entry)\<rparr>\<rparr>))"
| "advance E req (ListRevoked p cid) s =
     (if handleTable_IsRevoked (table s) cid
      then (Inl (Reply (ErrorResponse (ReqID req) ErrPermDenied ''capability revoked'')), s)
      else (Inr (ListDir p cid), s))"
| "advance E req (ListDir p cid) s =
     (let s' = s\<lparr>oslog := OsReadDir p # oslog s\<rparr> in
      case os_ReadDir E p of
        Inl err \<Rightarrow>
          if isNotExist err
          then (Inl (Reply (ErrorResponse (ReqID req) ErrNotFound ''directory not found'')), s')
          else (Inl (Reply (ErrorResponse (ReqID req) ErrInternal (errText err))), s')
      | Inr entries \<Rightarrow>
          (Inl (Reply (SuccessResponse (ReqID req)
             (VObject [(''entries'',
                if entries = [] then VNull else VList (map listItem entries))]))), s'))"
| "advance E req (ReadGet claims hid) s =
     (case handleTable_Get (table s) hid of
        None \<Rightarrow> (Inl (Reply (ErrorResponse (ReqID req) ErrNotFound ''invalid handle'')), s)
      | Some entry \<Rightarrow>
          (case claims of
             None \<Rightarrow> (Inl Panic, s)
           | Some c \<Rightarrow>
               if e_capID entry \<noteq> ID c
               then (Inl (Reply (ErrorResponse (ReqID req) ErrPermDenied
                              ''handle not bound to this capability'')), s)
               else (Inr (ReadRevoked entry), s)))"
| "advance E req (ReadRevoked entry) s =
     (if handleTable_IsRevoked (table s) (e_capID entry)
      then (Inl (Reply (ErrorResponse (ReqID req) ErrPermDenied ''capability revoked'')), s)
      else
        let offset = asFloat64 (Params req) ''offset'';
            size0 = asFloat64 (Params req) ''size'';
            sz = (if size0 \<le> 0 then 4096 else size0)
        in (Inr (ReadFile entry sz offset), s))"
| "advance E req (ReadFile entry sz off) s =
     (let s2 = s\<lparr>oslog := FileReadAt (e_file entry) sz off # oslog s\<rparr> in
      case file_ReadAt E (e_file entry) sz off of
        ReadPanic \<Rightarrow> (Inl Panic, s2)
      | ReadError err \<Rightarrow> (Inl (Reply (ErrorResponse (ReqID req) ErrInternal err)), s2)
      | ReadData buf \<Rightarrow>
          (Inl (Reply (SuccessResponse (ReqID req)
             (VObject [(''data'', VString buf),
                       (''bytes_read'', VNumber (real (length buf)))]))), s2))"

text \<open>A handler that no other connection interrupts: its steps one after the other, at
  most \<open>n\<close> of them after the first.\<close>

fun drain :: "nat \<Rightarrow> env \<Rightarrow> Request \<Rightarrow> (reply + pending) \<times> fsState \<Rightarrow> (reply + pending) \<times> fsState" where
  "drain 0 E req x = x"
| "drain (Suc n) E req (Inl r, s) = (Inl r, s)"
| "drain (Suc n) E req (Inr pd, s) = drain n E req (advance E req pd s)"

text \<open>
  \<open>past C pd\<close>: the handler is at \<open>pd\<close> for capability \<open>C\<close> and has its revocation check
  behind it. \<open>under C pd\<close>: the handler is at \<open>pd\<close> for a request presented under \<open>C\<close>.
\<close>

fun past :: "string \<Rightarrow> pending \<Rightarrow> bool" where
  "past C (OpenFile p cid) = (cid = C)"
| "past C (OpenCount p cid f) = (cid = C)"
| "past C (OpenInsert p cid f hid) = (cid = C)"
| "past C (ListDir p cid) = (cid = C)"
| "past C (ReadFile entry sz off) = (e_capID entry = C)"
| "past C (OpenRevoked p cid) = False"
| "past C (ListRevoked p cid) = False"
| "past C (ReadGet claims hid) = False"
| "past C (ReadRevoked entry) = False"

fun under :: "string \<Rightarrow> pending \<Rightarrow> bool" where
  "under C (OpenRevoked p cid) = (cid = C)"
| "under C (OpenFile p cid) = (cid = C)"
| "under C (OpenCount p cid f) = (cid = C)"
| "under C (OpenInsert p cid f hid) = (cid = C)"
| "under C (ListRevoked p cid) = (cid = C)"
| "under C (ListDir p cid) = (cid = C)"
| "under C (ReadGet claims hid) = (case claims of None \<Rightarrow> False | Some c \<Rightarrow> ID c = C)"
| "under C (ReadRevoked entry) = (e_capID entry = C)"
| "under C (ReadFile entry sz off) = (e_capID entry = C)"

text \<open>
  The process with its connections: the service state, and for each connection that is
  inside a handler the request and the point reached. A connection reads its next
  request only after it has answered the last one. \<^verbatim>\<open>fs.revoke\<close> takes the write lock
  of the table once and is one step. A run is a list of steps in the order in which they
  take effect; it returns the responses in that order.
\<close>

record cstate =
  c_state :: fsState
  c_pending :: "(nat \<times> env \<times> Request \<times> pending) list"

datatype cstep = Begin nat env Request | Resume nat

definition beginHandler :: "env \<Rightarrow> Request \<Rightarrow> fsState \<Rightarrow> ((reply + pending) \<times> fsState) option" where
  "beginHandler E req s =
     (if Method req = ''fs.open'' then Some (fs_open_begin E req s)
      else if Method req = ''fs.read'' then Some (fs_read_begin E req s)
      else if Method req = ''fs.list'' then Some (fs_list_begin E req s)
      else None)"

definition others :: "nat \<Rightarrow> (nat \<times> 'a) list \<Rightarrow> (nat \<times> 'a) list" where
  "others k xs = filter (\<lambda>x. fst x \<noteq> k) xs"

fun stepC :: "cstep \<Rightarrow> cstate \<Rightarrow> reply option \<times> cstate" where
  "stepC (Begin k E req) cs =
     (case map_of (c_pending cs) k of
        Some busy \<Rightarrow> (None, cs)
      | None \<Rightarrow>
          if V req \<noteq> 1
          then (Some (Reply (ErrorResponse (ReqID req) ErrInvalidRequest ''unsupported protocol version'')), cs)
          else (case beginHandler E req (c_state cs) of
             Some (Inl r, s') \<Rightarrow> (Some r, cs\<lparr>c_state := s'\<rparr>)
           | Some (Inr pd, s') \<Rightarrow>
               (None, cs\<lparr>c_state := s', c_pending := (k, E, req, pd) # c_pending cs\<rparr>)
           | None \<Rightarrow>
               if Method req = ''fs.revoke''
               then (case fs_revoke req (c_state cs) of (r, s') \<Rightarrow> (Some r, cs\<lparr>c_state := s'\<rparr>))
               else (Some (Reply (ErrorResponse (ReqID req) ErrInvalidRequest
                                    (''unknown method: '' @ Method req))), cs)))"
| "stepC (Resume k) cs =
     (case map_of (c_pending cs) k of
        None \<Rightarrow> (None, cs)
      | Some (E, req, pd) \<Rightarrow>
          (case advance E req pd (c_state cs) of
             (Inl r, s') \<Rightarrow> (Some r, cs\<lparr>c_state := s', c_pending := others k (c_pending cs)\<rparr>)
           | (Inr pd', s') \<Rightarrow>
               (None, cs\<lparr>c_state := s', c_pending := (k, E, req, pd') # others k (c_pending cs)\<rparr>)))"

fun runC :: "cstep list \<Rightarrow> cstate \<Rightarrow> reply list \<times> cstate" where
  "runC [] cs = ([], cs)"
| "runC (x # xs) cs =
     (case stepC x cs of
        (r, cs') \<Rightarrow>
          (case runC xs cs' of
             (rs, cs'') \<Rightarrow> ((case r of Some y \<Rightarrow> [y] | None \<Rightarrow> []) @ rs, cs'')))"

definition idle :: "fsState \<Rightarrow> cstate" where
  "idle s = \<lparr>c_state = s, c_pending = []\<rparr>"

text \<open>\<open>inflight C cs\<close>: the connections that are inside a handler for \<open>C\<close> with the
  revocation check behind them.\<close>

definition inflight :: "string \<Rightarrow> cstate \<Rightarrow> nat list" where
  "inflight C cs = map fst (filter (\<lambda>x. past C (snd (snd (snd x)))) (c_pending cs))"

text \<open>Two races. In the first, connection 1 takes an \<^verbatim>\<open>fs.open\<close> under the first sample
  capability through its revocation check, connection 2 revokes that capability, and
  connection 1 goes on. In the second the same happens to a read of the handle that the
  capability opened before.\<close>

definition openRace :: "cstep list" where
  "openRace = [Begin 1 (demoEnv 0) openReq, Resume 1, Begin 2 (demoEnv 0) revokeReq,
               Resume 1, Resume 1, Resume 1]"

definition readRace :: "cstep list" where
  "readRace = [Begin 1 (demoEnv 0) (readReq demoClaims), Resume 1, Resume 1,
               Begin 2 (demoEnv 0) revokeReq, Resume 1]"

text \<open>The second race just after the revocation: connection 1 still has its read to do.
  Then, one second later, connection 3 starts a read of the same handle under the
  revoked capability and connection 2 a listing under the second sample capability,
  and the read of connection 1 lands.\<close>

definition midRace :: cstate where
  "midRace = snd (runC (take 4 readRace) (idle afterOpen))"

definition laterSteps :: "cstep list" where
  "laterSteps =
     [Begin 3 (demoEnv 1) (readReq demoClaims),
      Begin 2 (demoEnv 1) (request ''fs.list'' (tokenOf demoClaims2) [(''path'', VString ''/tmp'')]),
      Resume 3, Resume 2, Resume 1]"

definition afterLater :: cstate where
  "afterLater = snd (runC laterSteps midRace)"

section \<open>Properties of the string functions\<close>

lemma HasPrefix_iff: "HasPrefix s p \<longleftrightarrow> (\<exists>r. s = p @ r)"
  by (induction s p rule: HasPrefix.induct) auto

lemma Contains_iff: "Contains s sub \<longleftrightarrow> (\<exists>a b. s = a @ sub @ b)"
proof (induction s)
  case Nil
  then show ?case by simp
next
  case (Cons c cs)
  show ?case
  proof
    assume "Contains (c # cs) sub"
    then consider "HasPrefix (c # cs) sub" | "Contains cs sub" by auto
    then show "\<exists>a b. c # cs = a @ sub @ b"
    proof cases
      case 1
      then obtain r where "c # cs = sub @ r" by (auto simp: HasPrefix_iff)
      then have "c # cs = [] @ sub @ r" by simp
      then show ?thesis by blast
    next
      case 2
      then obtain a b where "cs = a @ sub @ b" using Cons.IH by blast
      then have "c # cs = (c # a) @ sub @ b" by simp
      then show ?thesis by blast
    qed
  next
    assume "\<exists>a b. c # cs = a @ sub @ b"
    then obtain a b where ab: "c # cs = a @ sub @ b" by blast
    show "Contains (c # cs) sub"
    proof (cases a)
      case Nil
      with ab have "HasPrefix (c # cs) sub" by (auto simp: HasPrefix_iff)
      then show ?thesis by simp
    next
      case (Cons x a')
      with ab have "cs = a' @ sub @ b" by simp
      then have "Contains cs sub" using Cons.IH by blast
      then show ?thesis by simp
    qed
  qed
qed

lemma hasRight_iff: "hasRight rights required \<longleftrightarrow> required \<in> set rights"
  by (induction rights) auto

lemma hasAction_iff: "hasAction actions required \<longleftrightarrow> required \<in> set actions"
  by (induction actions) auto

lemma SplitN2_two:
  "SplitN2 s sep = [a, b] \<longleftrightarrow> s = a @ sep # b \<and> sep \<notin> set a"
proof
  assume h: "SplitN2 s sep = [a, b]"
  then have mem: "sep \<in> set s" by (auto simp: SplitN2_def split: if_splits)
  from h mem have a: "a = takeWhile (\<lambda>c. c \<noteq> sep) s" and b: "b = tl (dropWhile (\<lambda>c. c \<noteq> sep) s)"
    by (auto simp: SplitN2_def)
  from mem have ne: "dropWhile (\<lambda>c. c \<noteq> sep) s \<noteq> []" by (simp add: dropWhile_eq_Nil_conv)
  then have "hd (dropWhile (\<lambda>c. c \<noteq> sep) s) = sep" using hd_dropWhile[of "\<lambda>c. c \<noteq> sep" s] by simp
  with ne have "dropWhile (\<lambda>c. c \<noteq> sep) s = sep # b" unfolding b by (cases "dropWhile (\<lambda>c. c \<noteq> sep) s") auto
  then have "s = a @ sep # b" unfolding a using takeWhile_dropWhile_id[of "\<lambda>c. c \<noteq> sep" s] by simp
  moreover have "sep \<notin> set a" unfolding a by (auto dest: set_takeWhileD)
  ultimately show "s = a @ sep # b \<and> sep \<notin> set a" by simp
next
  assume "s = a @ sep # b \<and> sep \<notin> set a"
  then have s: "s = a @ sep # b" and na: "\<forall>x\<in>set a. x \<noteq> sep" by auto
  from na have "takeWhile (\<lambda>c. c \<noteq> sep) (a @ sep # b) = a"
    by (simp add: takeWhile_append2)
  moreover from na have "dropWhile (\<lambda>c. c \<noteq> sep) (a @ sep # b) = sep # b"
    by (simp add: dropWhile_append2)
  ultimately show "SplitN2 s sep = [a, b]"
    unfolding s by (simp add: SplitN2_def)
qed

lemma SplitN2_length: "length (SplitN2 s sep) = 2 \<longleftrightarrow> sep \<in> set s"
  by (simp add: SplitN2_def)

section \<open>The authorization decision\<close>

lemma Authorize_None:
  "Authorize L clk None method ctx buckets =
     (Some \<lparr>Code = 2, Name = ''UNAUTHENTICATED'', Message = ''token required''\<rparr>, buckets)"
  by (simp add: Authorize_def CodeUnauthenticated_def)

lemma Authorize_ok_steps:
  assumes "fst (Authorize L clk claims method ctx buckets) = None"
  shows "\<exists>c service action.
           claims = Some c \<and> method = service @ ''.'' @ action \<and> CHR ''.'' \<notin> set service
         \<and> Service c = service
         \<and> (method \<in> set (Rights c) \<or> action \<in> set (Actions c))
         \<and> enforcePathPrefix L (PathPrefix (Constraints c)) ctx = None
         \<and> fst (enforceRateLimit L clk (ID c) (RateLimit (Constraints c)) buckets) = None
         \<and> Authorize L clk claims method ctx buckets =
             enforceRateLimit L clk (ID c) (RateLimit (Constraints c)) buckets"
proof -
  from assms obtain c where c: "claims = Some c"
    by (cases claims) (auto simp: Authorize_def)
  from assms c obtain service action where sp: "SplitN2 method (CHR ''.'') = [service, action]"
    by (auto simp: Authorize_def split: list.splits)
  then have m: "method = service @ ''.'' @ action" and nd: "CHR ''.'' \<notin> set service"
    by (auto simp: SplitN2_two)
  from assms c sp have svc: "Service c = service"
    by (auto simp: Authorize_def split: if_splits)
  from assms c sp svc have perm: "hasRight (Rights c) method \<or> hasAction (Actions c) action"
    by (auto simp: Authorize_def split: if_splits)
  from c sp svc perm have eq: "Authorize L clk claims method ctx buckets = enforceConstraints L clk c ctx buckets"
    by (auto simp: Authorize_def)
  with assms have ec: "fst (enforceConstraints L clk c ctx buckets) = None" by simp
  then have pp: "enforcePathPrefix L (PathPrefix (Constraints c)) ctx = None"
    by (auto simp: enforceConstraints_def split: option.splits)
  then have eq2: "enforceConstraints L clk c ctx buckets =
      enforceRateLimit L clk (ID c) (RateLimit (Constraints c)) buckets"
    by (simp add: enforceConstraints_def)
  from c m nd svc perm pp ec eq eq2 show ?thesis
    by (auto simp: hasRight_iff hasAction_iff)
qed

text \<open>
  Claim C1 (deny by default). Whatever the claims, the method and the context are,
  \<open>Authorize\<close> returns \<^verbatim>\<open>nil\<close> only if claims are present, the method is
  \<open>service.action\<close> cut at its first dot, the claims name that service, the full method
  is among the rights or the bare action among the actions, the path-prefix constraint
  passes and the rate-limit constraint passes (whose bucket update is the only change of
  state). With no claims the result is \<^verbatim>\<open>UNAUTHENTICATED\<close>, code 2, and the state is
  untouched.
\<close>

theorem Authorize_deny_by_default:
  "(fst (Authorize L clk claims method ctx buckets) = None \<longrightarrow>
      (\<exists>c service action.
           claims = Some c \<and> method = service @ ''.'' @ action \<and> CHR ''.'' \<notin> set service
         \<and> Service c = service
         \<and> (method \<in> set (Rights c) \<or> action \<in> set (Actions c))
         \<and> enforcePathPrefix L (PathPrefix (Constraints c)) ctx = None
         \<and> fst (enforceRateLimit L clk (ID c) (RateLimit (Constraints c)) buckets) = None
         \<and> Authorize L clk claims method ctx buckets =
             enforceRateLimit L clk (ID c) (RateLimit (Constraints c)) buckets))
   \<and> Authorize L clk None method ctx buckets =
        (Some \<lparr>Code = 2, Name = ''UNAUTHENTICATED'', Message = ''token required''\<rparr>, buckets)"
  using Authorize_ok_steps Authorize_None by blast

text \<open>The scenario token opening \<^verbatim>\<open>/tmp/x\<close> is allowed, and every step has passed.\<close>

theorem Authorize_deny_by_default_witness:
  "fst (Authorize (unixLib ''/'') (clockAt 0) (Some demoClaims) ''fs.open''
       [''path'' \<mapsto> VString ''/tmp/x''] Map.empty) = None
   \<and> (\<exists>c service action.
           Some demoClaims = Some c \<and> ''fs.open'' = service @ ''.'' @ action
         \<and> CHR ''.'' \<notin> set service \<and> Service c = service
         \<and> (''fs.open'' \<in> set (Rights c) \<or> action \<in> set (Actions c))
         \<and> enforcePathPrefix (unixLib ''/'') (PathPrefix (Constraints c))
              [''path'' \<mapsto> VString ''/tmp/x''] = None
         \<and> fst (enforceRateLimit (unixLib ''/'') (clockAt 0) (ID c)
              (RateLimit (Constraints c)) Map.empty) = None)"
proof -
  have ok: "fst (Authorize (unixLib ''/'') (clockAt 0) (Some demoClaims) ''fs.open''
       [''path'' \<mapsto> VString ''/tmp/x''] Map.empty) = None"
    by code_simp
  with Authorize_deny_by_default
    [of "unixLib ''/''" "clockAt 0" "Some demoClaims" "''fs.open''"
        "[''path'' \<mapsto> VString ''/tmp/x'']" Map.empty]
  show ?thesis by blast
qed

lemma enforcePathPrefix_ok:
  assumes "prefix \<noteq> []" and "asString ctx ''path'' = Q" and "Q \<noteq> []"
    and "enforcePathPrefix L prefix ctx = None"
  shows "\<not> Contains Q ''..'' \<and>
         (\<exists>absQ absP. filepath_Abs L Q = Inr absQ \<and> filepath_Abs L prefix = Inr absP
            \<and> (absQ = absP \<or> (\<exists>rest. absQ = absP @ [Separator] @ rest)))"
  using assms
  by (auto simp: enforcePathPrefix_def Let_def HasPrefix_iff split: if_splits sum.splits)

lemma enforcePathPrefix_traversal:
  assumes "prefix \<noteq> []" and "asString ctx ''path'' = a @ ''..'' @ b"
  shows "enforcePathPrefix L prefix ctx =
    Some \<lparr>Code = 3, Name = ''PERMISSION_DENIED'', Message = ''path traversal not allowed''\<rparr>"
proof -
  have "Contains (a @ ''..'' @ b) ''..''" unfolding Contains_iff by blast
  with assms show ?thesis
    by (simp add: enforcePathPrefix_def Let_def CodePermissionDenied_def)
qed

text \<open>
  Claim C2 (path containment). For a non-empty prefix \<open>P\<close> and a non-empty context path
  \<open>Q\<close>: the constraint passes only if both resolve and \<open>abs Q = abs P\<close> or \<open>abs Q\<close> is
  \<open>abs P\<close>, the separator, and a rest; a \<open>Q\<close> with \<^verbatim>\<open>..\<close> anywhere inside is denied as
  traversal; \<open>Authorize\<close> allows only if the constraint passes; and under prefix
  \<^verbatim>\<open>/tmp\<close> the path \<^verbatim>\<open>/tmpevil\<close> is denied, in every working directory.
\<close>

theorem path_containment:
  assumes "prefix \<noteq> []" and "asString ctx ''path'' = Q" and "Q \<noteq> []"
  shows "(enforcePathPrefix L prefix ctx = None \<longrightarrow>
            (\<exists>absQ absP. filepath_Abs L Q = Inr absQ \<and> filepath_Abs L prefix = Inr absP
               \<and> (absQ = absP \<or> (\<exists>rest. absQ = absP @ [Separator] @ rest))))
       \<and> ((\<exists>a b. Q = a @ ''..'' @ b) \<longrightarrow>
            enforcePathPrefix L prefix ctx =
              Some \<lparr>Code = 3, Name = ''PERMISSION_DENIED'', Message = ''path traversal not allowed''\<rparr>)
       \<and> (\<forall>c method buckets. PathPrefix (Constraints c) = prefix \<longrightarrow>
             fst (Authorize L clk (Some c) method ctx buckets) = None \<longrightarrow>
             enforcePathPrefix L prefix ctx = None)
       \<and> enforcePathPrefix (unixLib cwd) ''/tmp'' [''path'' \<mapsto> VString ''/tmpevil''] =
            Some \<lparr>Code = 3, Name = ''PERMISSION_DENIED'',
                  Message = ''path /tmpevil outside allowed prefix /tmp''\<rparr>"
proof (intro conjI impI allI)
  assume "enforcePathPrefix L prefix ctx = None"
  with assms enforcePathPrefix_ok show "\<exists>absQ absP. filepath_Abs L Q = Inr absQ \<and> filepath_Abs L prefix = Inr absP
               \<and> (absQ = absP \<or> (\<exists>rest. absQ = absP @ [Separator] @ rest))"
    by blast
next
  assume "\<exists>a b. Q = a @ ''..'' @ b"
  with assms enforcePathPrefix_traversal show "enforcePathPrefix L prefix ctx =
              Some \<lparr>Code = 3, Name = ''PERMISSION_DENIED'', Message = ''path traversal not allowed''\<rparr>"
    by blast
next
  fix c m bs
  assume "PathPrefix (Constraints c) = prefix"
    and "fst (Authorize L clk (Some c) m ctx bs) = None"
  then show "enforcePathPrefix L prefix ctx = None"
    using Authorize_ok_steps [of L clk "Some c" m ctx bs] by auto
next
  have a1: "unixAbs cwd ''/tmp'' = Inr ''/tmp''" by code_simp
  have a2: "unixAbs cwd ''/tmpevil'' = Inr ''/tmpevil''" by code_simp
  have c: "\<not> Contains ''/tmpevil'' ''..''" by code_simp
  have h: "\<not> HasPrefix ''/tmpevil'' (''/tmp'' @ [Separator])" by code_simp
  show "enforcePathPrefix (unixLib cwd) ''/tmp'' [''path'' \<mapsto> VString ''/tmpevil''] =
            Some \<lparr>Code = 3, Name = ''PERMISSION_DENIED'',
                  Message = ''path /tmpevil outside allowed prefix /tmp''\<rparr>"
    using a1 a2 c h
    by (simp add: enforcePathPrefix_def unixLib_def asString_def CodePermissionDenied_def)
qed

text \<open>Under prefix \<^verbatim>\<open>/tmp\<close>: \<^verbatim>\<open>/tmp/x\<close> passes and is contained, for the scenario token
  too; \<^verbatim>\<open>/tmp/../etc/passwd\<close> is a traversal.\<close>

theorem path_containment_witness:
  "(''/tmp'' \<noteq> [] \<and> asString [''path'' \<mapsto> VString ''/tmp/x''] ''path'' = ''/tmp/x''
      \<and> ''/tmp/x'' \<noteq> []
      \<and> enforcePathPrefix (unixLib ''/'') ''/tmp'' [''path'' \<mapsto> VString ''/tmp/x''] = None
      \<and> PathPrefix (Constraints demoClaims) = ''/tmp''
      \<and> fst (Authorize (unixLib ''/'') (clockAt 0) (Some demoClaims) ''fs.open''
             [''path'' \<mapsto> VString ''/tmp/x''] Map.empty) = None
      \<and> (\<exists>absQ absP. filepath_Abs (unixLib ''/'') ''/tmp/x'' = Inr absQ
             \<and> filepath_Abs (unixLib ''/'') ''/tmp'' = Inr absP
             \<and> (absQ = absP \<or> (\<exists>rest. absQ = absP @ [Separator] @ rest))))
   \<and> (asString [''path'' \<mapsto> VString ''/tmp/../etc/passwd''] ''path'' = ''/tmp/../etc/passwd''
      \<and> ''/tmp/../etc/passwd'' = ''/tmp/'' @ ''..'' @ ''/etc/passwd''
      \<and> enforcePathPrefix (unixLib ''/'') ''/tmp'' [''path'' \<mapsto> VString ''/tmp/../etc/passwd''] =
           Some \<lparr>Code = 3, Name = ''PERMISSION_DENIED'', Message = ''path traversal not allowed''\<rparr>)"
proof -
  have p: "''/tmp'' \<noteq> []" by simp
  have q1: "asString [''path'' \<mapsto> VString ''/tmp/x''] ''path'' = ''/tmp/x''"
    by (simp add: asString_def)
  have n1: "''/tmp/x'' \<noteq> []" by simp
  have ok: "enforcePathPrefix (unixLib ''/'') ''/tmp'' [''path'' \<mapsto> VString ''/tmp/x''] = None"
    by code_simp
  have pc: "PathPrefix (Constraints demoClaims) = ''/tmp''" by (simp add: demoClaims_def)
  have au: "fst (Authorize (unixLib ''/'') (clockAt 0) (Some demoClaims) ''fs.open''
             [''path'' \<mapsto> VString ''/tmp/x''] Map.empty) = None"
    by code_simp
  have q2: "asString [''path'' \<mapsto> VString ''/tmp/../etc/passwd''] ''path'' = ''/tmp/../etc/passwd''"
    by (simp add: asString_def)
  have n2: "''/tmp/../etc/passwd'' \<noteq> []" by simp
  have sp: "''/tmp/../etc/passwd'' = ''/tmp/'' @ ''..'' @ ''/etc/passwd''" by simp
  from path_containment [OF p q1 n1, of "unixLib ''/''"] ok
  have c1: "\<exists>absQ absP. filepath_Abs (unixLib ''/'') ''/tmp/x'' = Inr absQ
             \<and> filepath_Abs (unixLib ''/'') ''/tmp'' = Inr absP
             \<and> (absQ = absP \<or> (\<exists>rest. absQ = absP @ [Separator] @ rest))"
    by blast
  from path_containment [OF p q2 n2, of "unixLib ''/''"] sp
  have c2: "enforcePathPrefix (unixLib ''/'') ''/tmp'' [''path'' \<mapsto> VString ''/tmp/../etc/passwd''] =
           Some \<lparr>Code = 3, Name = ''PERMISSION_DENIED'', Message = ''path traversal not allowed''\<rparr>"
    by blast
  from p q1 n1 ok pc au c1 q2 sp c2 show ?thesis by blast
qed

section \<open>The rate limiter\<close>


lemma parseRate_fail_zero: "\<not> snd (parseRate L s) \<Longrightarrow> parseRate L s = (0, False)"
  by (auto simp: parseRate_def Let_def split: option.splits if_splits)


lemma enforceRateLimit_existing:
  assumes "rateLimit \<noteq> []" and "snd (parseRate L rateLimit)" and "buckets capID = Some b"
  shows "enforceRateLimit L clk capID rateLimit buckets =
     (let capped = min (b_tokens b + (now_refill clk - b_last b) * b_rate b) (b_rate b) in
      if capped < 1
      then (Some exhausted, buckets(capID \<mapsto> b\<lparr>b_tokens := capped, b_last := now_refill clk\<rparr>))
      else (None, buckets(capID \<mapsto> b\<lparr>b_tokens := capped - 1, b_last := now_refill clk\<rparr>)))"
  using assms
  by (auto simp: enforceRateLimit_def Let_def min_def exhausted_def CodeResourceExhausted_def
           split: prod.splits)

lemma enforceRateLimit_fresh:
  assumes "rateLimit \<noteq> []" and "parseRate L rateLimit = (r, True)" and "buckets capID = None"
  shows "enforceRateLimit L clk capID rateLimit buckets =
     (let b = \<lparr>b_tokens = r, b_rate = r, b_last = now_bucket clk\<rparr>;
          capped = min (r + (now_refill clk - now_bucket clk) * r) r in
      if capped < 1
      then (Some exhausted, buckets(capID \<mapsto> b\<lparr>b_tokens := capped, b_last := now_refill clk\<rparr>))
      else (None, buckets(capID \<mapsto> b\<lparr>b_tokens := capped - 1, b_last := now_refill clk\<rparr>)))"
  using assms
  by (auto simp: enforceRateLimit_def Let_def min_def exhausted_def CodeResourceExhausted_def)

lemma step_full:
  assumes "rateLimit \<noteq> []" and "parseRate L rateLimit = (real N, True)"
    and "buckets capID = Some \<lparr>b_tokens = real (Suc k), b_rate = real N, b_last = t\<rparr>" and "Suc k \<le> N"
  shows "enforceRateLimit L (clockAt t) capID rateLimit buckets =
           (None, buckets(capID \<mapsto> \<lparr>b_tokens = real k, b_rate = real N, b_last = t\<rparr>))"
proof -
  from assms(2) have ok: "snd (parseRate L rateLimit)" by simp
  show ?thesis
    using assms(4) enforceRateLimit_existing [where buckets = buckets and capID = capID, OF assms(1) ok assms(3), of "clockAt t"]
    by (simp add: clockAt_def Let_def min_def)
qed

lemma step_empty:
  assumes "rateLimit \<noteq> []" and "parseRate L rateLimit = (real N, True)"
    and "buckets capID = Some \<lparr>b_tokens = 0, b_rate = real N, b_last = t\<rparr>"
  shows "enforceRateLimit L (clockAt t) capID rateLimit buckets =
           (Some exhausted, buckets(capID \<mapsto> \<lparr>b_tokens = 0, b_rate = real N, b_last = t\<rparr>))"
proof -
  from assms(2) have ok: "snd (parseRate L rateLimit)" by simp
  show ?thesis
    using enforceRateLimit_existing [where buckets = buckets and capID = capID, OF assms(1) ok assms(3), of "clockAt t"]
    by (simp add: clockAt_def Let_def min_def)
qed

lemma callsAt_drain:
  assumes "rateLimit \<noteq> []" and "parseRate L rateLimit = (real N, True)"
  shows "buckets capID = Some \<lparr>b_tokens = real k, b_rate = real N, b_last = t\<rparr> \<Longrightarrow> k \<le> N \<Longrightarrow>
         callsAt L t capID rateLimit k buckets =
           (replicate k None, buckets(capID \<mapsto> \<lparr>b_tokens = 0, b_rate = real N, b_last = t\<rparr>))"
proof (induction k arbitrary: buckets)
  case 0
  then have "buckets(capID \<mapsto> \<lparr>b_tokens = 0, b_rate = real N, b_last = t\<rparr>) = buckets"
    by (auto simp: fun_upd_idem)
  then show ?case by simp
next
  case (Suc k)
  let ?b' = "buckets(capID \<mapsto> \<lparr>b_tokens = real k, b_rate = real N, b_last = t\<rparr>)"
  have st: "enforceRateLimit L (clockAt t) capID rateLimit buckets = (None, ?b')"
    using step_full [where buckets = buckets and capID = capID, OF assms Suc.prems(1) Suc.prems(2)] .
  have "?b' capID = Some \<lparr>b_tokens = real k, b_rate = real N, b_last = t\<rparr>" by simp
  moreover from Suc.prems have "k \<le> N" by simp
  ultimately have "callsAt L t capID rateLimit k ?b' =
      (replicate k None, ?b'(capID \<mapsto> \<lparr>b_tokens = 0, b_rate = real N, b_last = t\<rparr>))"
    using Suc.IH [where buckets = "?b'"] by blast
  with st show ?case by (auto simp: fun_eq_iff)
qed

lemma callsAt_append:
  "callsAt L t capID rateLimit (m + n) buckets =
     (case callsAt L t capID rateLimit m buckets of
        (rs, buckets') \<Rightarrow>
          (case callsAt L t capID rateLimit n buckets' of
             (rs', buckets'') \<Rightarrow> (rs @ rs', buckets'')))"
  by (induction m arbitrary: buckets) (auto split: prod.splits)


lemma step_first:
  assumes "rateLimit \<noteq> []" and "parseRate L rateLimit = (real N, True)"
    and "buckets capID = None" and "1 \<le> N"
  shows "enforceRateLimit L (clockAt t) capID rateLimit buckets =
           (None, buckets(capID \<mapsto> \<lparr>b_tokens = real (N - 1), b_rate = real N, b_last = t\<rparr>))"
  using assms(4) enforceRateLimit_fresh [where buckets = buckets and capID = capID, OF assms(1,2,3), of "clockAt t"]
  by (simp add: clockAt_def Let_def min_def of_nat_diff)

lemma step_after_wait:
  assumes "rateLimit \<noteq> []" and "parseRate L rateLimit = (real N, True)" and "1 \<le> N"
    and "buckets capID = Some \<lparr>b_tokens = 0, b_rate = real N, b_last = t\<rparr>"
  shows "enforceRateLimit L (clockAt (t + 1 / real N)) capID rateLimit buckets =
           (None, buckets(capID \<mapsto> \<lparr>b_tokens = 0, b_rate = real N, b_last = t + 1 / real N\<rparr>))"
proof -
  from assms(2) have ok: "snd (parseRate L rateLimit)" by simp
  show ?thesis
    using assms(3) enforceRateLimit_existing [where buckets = buckets and capID = capID, OF assms(1) ok assms(4), of "clockAt (t + 1 / real N)"]
    by (simp add: clockAt_def Let_def min_def)
qed

lemma callsAt_burst:
  assumes "rateLimit \<noteq> []" and "parseRate L rateLimit = (real N, True)" and "1 \<le> N"
    and "buckets capID = None"
  shows "callsAt L t capID rateLimit (Suc N) buckets =
           (replicate N None @ [Some exhausted],
            buckets(capID \<mapsto> \<lparr>b_tokens = 0, b_rate = real N, b_last = t\<rparr>))"
proof -
  let ?b1 = "buckets(capID \<mapsto> \<lparr>b_tokens = real (N - 1), b_rate = real N, b_last = t\<rparr>)"
  let ?b0 = "buckets(capID \<mapsto> \<lparr>b_tokens = 0, b_rate = real N, b_last = t\<rparr>)"
  have first: "enforceRateLimit L (clockAt t) capID rateLimit buckets = (None, ?b1)"
    using step_first [where buckets = buckets and capID = capID, OF assms(1,2,4,3)] .
  have "?b1 capID = Some \<lparr>b_tokens = real (N - 1), b_rate = real N, b_last = t\<rparr>" by simp
  then have "callsAt L t capID rateLimit (N - 1) ?b1 =
      (replicate (N - 1) None, ?b1(capID \<mapsto> \<lparr>b_tokens = 0, b_rate = real N, b_last = t\<rparr>))"
    using callsAt_drain [where buckets = "?b1" and capID = capID and k = "N - 1", OF assms(1,2)]
    by simp
  then have drain: "callsAt L t capID rateLimit (N - 1) ?b1 = (replicate (N - 1) None, ?b0)"
    by simp
  have "?b0 capID = Some \<lparr>b_tokens = 0, b_rate = real N, b_last = t\<rparr>" by simp
  then have "enforceRateLimit L (clockAt t) capID rateLimit ?b0 =
      (Some exhausted, ?b0(capID \<mapsto> \<lparr>b_tokens = 0, b_rate = real N, b_last = t\<rparr>))"
    using step_empty [where buckets = "?b0" and capID = capID, OF assms(1,2)] by blast
  then have last: "callsAt L t capID rateLimit 1 ?b0 = ([Some exhausted], ?b0)"
    by simp
  have "callsAt L t capID rateLimit ((N - 1) + 1) ?b1 = (replicate (N - 1) None @ [Some exhausted], ?b0)"
    unfolding callsAt_append using drain last by simp
  moreover from assms(3) have "(N - 1) + 1 = N" by simp
  ultimately have rest: "callsAt L t capID rateLimit N ?b1 = (replicate (N - 1) None @ [Some exhausted], ?b0)"
    by simp
  from assms(3) have "None # replicate (N - 1) None = (replicate N None :: PolicyError option list)"
    by (cases N) simp_all
  with first rest show ?thesis by simp
qed

text \<open>
  Claim C6 (token bucket). Token counts and times are real numbers. Let the rate string
  parse to the whole number \<open>N \<ge> 1\<close> and let the capability have no bucket yet. With the
  clock standing at \<open>t\<close>, the first \<open>N\<close> calls return \<^verbatim>\<open>nil\<close> and call \<open>N + 1\<close> returns
  \<^verbatim>\<open>RESOURCE_EXHAUSTED\<close>, code 7, leaving the bucket empty. At \<open>t + 1/N\<close> one call
  succeeds and the next one at that instant is exhausted again. For a bucket that exists,
  a call refills by \<open>(now - last) * rate\<close>, caps at \<open>rate\<close>, sets \<open>last\<close>, and takes one
  token if at least one is there.
\<close>

theorem rate_limit_token_bucket:
  assumes "rateLimit \<noteq> []" and "parseRate L rateLimit = (real N, True)" and "1 \<le> N"
    and "buckets capID = None"
  shows "callsAt L t capID rateLimit (Suc N) buckets =
           (replicate N None @ [Some exhausted],
            buckets(capID \<mapsto> \<lparr>b_tokens = 0, b_rate = real N, b_last = t\<rparr>))
       \<and> enforceRateLimit L (clockAt (t + 1 / real N)) capID rateLimit
            (buckets(capID \<mapsto> \<lparr>b_tokens = 0, b_rate = real N, b_last = t\<rparr>)) =
           (None, buckets(capID \<mapsto> \<lparr>b_tokens = 0, b_rate = real N, b_last = t + 1 / real N\<rparr>))
       \<and> fst (enforceRateLimit L (clockAt (t + 1 / real N)) capID rateLimit
            (buckets(capID \<mapsto> \<lparr>b_tokens = 0, b_rate = real N, b_last = t + 1 / real N\<rparr>))) =
           Some exhausted
       \<and> Code exhausted = 7
       \<and> (\<forall>bs b clk. bs capID = Some b \<longrightarrow>
            enforceRateLimit L clk capID rateLimit bs =
              (let capped = min (b_tokens b + (now_refill clk - b_last b) * b_rate b) (b_rate b) in
               if capped < 1
               then (Some exhausted, bs(capID \<mapsto> b\<lparr>b_tokens := capped, b_last := now_refill clk\<rparr>))
               else (None, bs(capID \<mapsto> b\<lparr>b_tokens := capped - 1, b_last := now_refill clk\<rparr>))))"
proof (intro conjI allI impI)
  let ?b0 = "buckets(capID \<mapsto> \<lparr>b_tokens = 0, b_rate = real N, b_last = t\<rparr>)"
  let ?b1 = "buckets(capID \<mapsto> \<lparr>b_tokens = 0, b_rate = real N, b_last = t + 1 / real N\<rparr>)"
  show "callsAt L t capID rateLimit (Suc N) buckets = (replicate N None @ [Some exhausted], ?b0)"
    using callsAt_burst [where buckets = buckets and capID = capID, OF assms] .
  have "?b0 capID = Some \<lparr>b_tokens = 0, b_rate = real N, b_last = t\<rparr>" by simp
  then show "enforceRateLimit L (clockAt (t + 1 / real N)) capID rateLimit ?b0 = (None, ?b1)"
    using step_after_wait [where buckets = "?b0" and capID = capID and t = t, OF assms(1,2,3)] by simp
  have "?b1 capID = Some \<lparr>b_tokens = 0, b_rate = real N, b_last = t + 1 / real N\<rparr>" by simp
  then show "fst (enforceRateLimit L (clockAt (t + 1 / real N)) capID rateLimit ?b1) = Some exhausted"
    using step_empty [where buckets = "?b1" and capID = capID and t = "t + 1 / real N", OF assms(1,2)] by simp
  show "Code exhausted = 7" by (simp add: exhausted_def)
next
  fix bs :: rateLimiter and b :: bucket and clk :: clock
  assume "bs capID = Some b"
  moreover from assms(2) have "snd (parseRate L rateLimit)" by simp
  ultimately show "enforceRateLimit L clk capID rateLimit bs =
              (let capped = min (b_tokens b + (now_refill clk - b_last b) * b_rate b) (b_rate b) in
               if capped < 1
               then (Some exhausted, bs(capID \<mapsto> b\<lparr>b_tokens := capped, b_last := now_refill clk\<rparr>))
               else (None, bs(capID \<mapsto> b\<lparr>b_tokens := capped - 1, b_last := now_refill clk\<rparr>)))"
    using enforceRateLimit_existing [where buckets = bs and capID = capID, OF assms(1)] by blast
qed

text \<open>Scenario E: \<^verbatim>\<open>2rps\<close>, two calls pass, the third is exhausted; half a second
  later a call passes.\<close>

theorem rate_limit_token_bucket_witness:
  "''2rps'' \<noteq> [] \<and> parseRate (unixLib ''/'') ''2rps'' = (real 2, True) \<and> (1::nat) \<le> 2
   \<and> (Map.empty :: rateLimiter) ''c1'' = None
   \<and> fst (callsAt (unixLib ''/'') 0 ''c1'' ''2rps'' 3 Map.empty) = [None, None, Some exhausted]
   \<and> fst (enforceRateLimit (unixLib ''/'') (clockAt (1 / 2)) ''c1'' ''2rps''
        [''c1'' \<mapsto> \<lparr>b_tokens = 0, b_rate = 2, b_last = 0\<rparr>]) = None"
proof -
  have a: "''2rps'' \<noteq> []" by simp
  have b: "parseRate (unixLib ''/'') ''2rps'' = (real 2, True)" by code_simp
  have c: "(1::nat) \<le> 2" by simp
  have d: "(Map.empty :: rateLimiter) ''c1'' = None" by simp
  from rate_limit_token_bucket [where buckets = Map.empty and capID = "''c1''", OF a b c d, of 0]
  show ?thesis using a b c by (simp add: numeral_3_eq_3 numeral_2_eq_2)
qed




section \<open>The FS service\<close>

lemma ErrorResponse_not_OK: "\<not> OK (ErrorResponse reqID cd msg)"
  by (simp add: ErrorResponse_def)

lemma policyError_not_OK: "\<not> OK (policyError reqID pe)"
  by (simp add: policyError_def ErrorResponse_def)

lemma extractClaims_Inl_not_OK: "extractClaims E req = Inl r \<Longrightarrow> \<not> OK r"
  by (auto simp: extractClaims_def ErrorResponse_def split: option.splits if_splits sum.splits)

lemma Authorize_nil_denied: "fst (Authorize L clk None method ctx buckets) \<noteq> None"
  by (simp add: Authorize_def)

lemma fs_open_verifier_denies:
  "extractClaims E req = Inl r \<Longrightarrow> fs_open E req s = (Reply r, s)"
  by (simp add: fs_open_def)

lemma fs_open_policy_denies:
  assumes "extractClaims E req = Inr claims" and "asString (Params req) ''path'' = p" and "p \<noteq> []"
    and "fst (Authorize (e_lib E) (e_clock E) claims ''fs.open'' [''path'' \<mapsto> VString p] (limiter s)) = Some err"
  shows "fs_open E req s =
     (Reply (policyError (ReqID req) err),
      s\<lparr>limiter := snd (Authorize (e_lib E) (e_clock E) claims ''fs.open'' [''path'' \<mapsto> VString p] (limiter s))\<rparr>)"
  using assms by (auto simp: fs_open_def split: prod.splits)

lemma fs_open_revoked_denies:
  assumes "extractClaims E req = Inr (Some c)" and "asString (Params req) ''path'' = p" and "p \<noteq> []"
    and "fst (Authorize (e_lib E) (e_clock E) (Some c) ''fs.open'' [''path'' \<mapsto> VString p] (limiter s)) = None"
    and "ID c \<in> revoked (table s)"
  shows "fs_open E req s =
     (Reply (ErrorResponse (ReqID req) 3 ''capability revoked''),
      s\<lparr>limiter := snd (Authorize (e_lib E) (e_clock E) (Some c) ''fs.open'' [''path'' \<mapsto> VString p] (limiter s))\<rparr>)"
  using assms by (auto simp: fs_open_def handleTable_IsRevoked_def ErrPermDenied_def split: prod.splits)

lemma fs_list_verifier_denies:
  "extractClaims E req = Inl r \<Longrightarrow> fs_list E req s = (Reply r, s)"
  by (simp add: fs_list_def)

lemma fs_list_policy_denies:
  assumes "extractClaims E req = Inr claims" and "asString (Params req) ''path'' = p" and "p \<noteq> []"
    and "fst (Authorize (e_lib E) (e_clock E) claims ''fs.list'' [''path'' \<mapsto> VString p] (limiter s)) = Some err"
  shows "fs_list E req s =
     (Reply (policyError (ReqID req) err),
      s\<lparr>limiter := snd (Authorize (e_lib E) (e_clock E) claims ''fs.list'' [''path'' \<mapsto> VString p] (limiter s))\<rparr>)"
  using assms by (auto simp: fs_list_def split: prod.splits)

lemma fs_list_revoked_denies:
  assumes "extractClaims E req = Inr (Some c)" and "asString (Params req) ''path'' = p" and "p \<noteq> []"
    and "fst (Authorize (e_lib E) (e_clock E) (Some c) ''fs.list'' [''path'' \<mapsto> VString p] (limiter s)) = None"
    and "ID c \<in> revoked (table s)"
  shows "fs_list E req s =
     (Reply (ErrorResponse (ReqID req) 3 ''capability revoked''),
      s\<lparr>limiter := snd (Authorize (e_lib E) (e_clock E) (Some c) ''fs.list'' [''path'' \<mapsto> VString p] (limiter s))\<rparr>)"
  using assms by (auto simp: fs_list_def handleTable_IsRevoked_def ErrPermDenied_def split: prod.splits)

lemma handleTable_Open_log: "oslog (snd (handleTable_Open E p cid s)) = OsOpen p # oslog s"
  by (simp add: handleTable_Open_def Let_def split: sum.splits)

lemma fs_open_touch:
  assumes "fs_open E req s = (out, s')" and "oslog s' \<noteq> oslog s \<or> table s' \<noteq> table s"
    and "asString (Params req) ''path'' = p"
  shows "\<exists>c. extractClaims E req = Inr (Some c) \<and> p \<noteq> []
           \<and> fst (Authorize (e_lib E) (e_clock E) (Some c) ''fs.open'' [''path'' \<mapsto> VString p] (limiter s)) = None
           \<and> ID c \<notin> revoked (table s)"
  using assms
  by (auto simp: fs_open_def Let_def handleTable_IsRevoked_def
           split: sum.splits if_splits prod.splits option.splits)

lemma fs_list_touch:
  assumes "fs_list E req s = (out, s')" and "oslog s' \<noteq> oslog s \<or> table s' \<noteq> table s"
    and "asString (Params req) ''path'' = p"
  shows "\<exists>c. extractClaims E req = Inr (Some c) \<and> p \<noteq> []
           \<and> fst (Authorize (e_lib E) (e_clock E) (Some c) ''fs.list'' [''path'' \<mapsto> VString p] (limiter s)) = None
           \<and> ID c \<notin> revoked (table s)"
  using assms
  by (auto simp: fs_list_def Let_def handleTable_IsRevoked_def
           split: sum.splits if_splits prod.splits option.splits)

text \<open>
  Claim C7 (a denial never touches the resource). For \<^verbatim>\<open>fs.open\<close> and \<^verbatim>\<open>fs.list\<close>:
  when the verifier rejects the token, the handler returns that error response and the
  state is the one it started in; when \<open>Authorize\<close> denies, or the revocation check
  finds the capability revoked, the handler returns the error and the state differs from
  the start state in the limiter only. Read the other way round: if the log of
  operating-system calls or the handle table changed, the token was verified, the path
  was there, \<open>Authorize\<close> allowed and the capability was not revoked.
\<close>

theorem denial_never_touches_resource:
  assumes hm: "handler = fs_open \<and> method = ''fs.open'' \<or> handler = fs_list \<and> method = ''fs.list''"
    and p: "asString (Params req) ''path'' = p"
  shows "(\<forall>r. extractClaims E req = Inl r \<longrightarrow> handler E req s = (Reply r, s) \<and> \<not> OK r)
     \<and> (\<forall>claims err. extractClaims E req = Inr claims \<longrightarrow> p \<noteq> [] \<longrightarrow>
            fst (Authorize (e_lib E) (e_clock E) claims method [''path'' \<mapsto> VString p] (limiter s)) = Some err \<longrightarrow>
            handler E req s =
              (Reply (policyError (ReqID req) err),
               s\<lparr>limiter := snd (Authorize (e_lib E) (e_clock E) claims method [''path'' \<mapsto> VString p] (limiter s))\<rparr>)
            \<and> \<not> OK (policyError (ReqID req) err))
     \<and> (\<forall>c. extractClaims E req = Inr (Some c) \<longrightarrow> p \<noteq> [] \<longrightarrow>
            fst (Authorize (e_lib E) (e_clock E) (Some c) method [''path'' \<mapsto> VString p] (limiter s)) = None \<longrightarrow>
            ID c \<in> revoked (table s) \<longrightarrow>
            handler E req s =
              (Reply (ErrorResponse (ReqID req) 3 ''capability revoked''),
               s\<lparr>limiter := snd (Authorize (e_lib E) (e_clock E) (Some c) method [''path'' \<mapsto> VString p] (limiter s))\<rparr>)
            \<and> \<not> OK (ErrorResponse (ReqID req) 3 ''capability revoked''))
     \<and> (\<forall>out s'. handler E req s = (out, s') \<longrightarrow> (oslog s' \<noteq> oslog s \<or> table s' \<noteq> table s) \<longrightarrow>
            (\<exists>c. extractClaims E req = Inr (Some c) \<and> p \<noteq> []
               \<and> fst (Authorize (e_lib E) (e_clock E) (Some c) method [''path'' \<mapsto> VString p] (limiter s)) = None
               \<and> ID c \<notin> revoked (table s)))"
  using hm
proof
  assume h: "handler = fs_open \<and> method = ''fs.open''"
  show ?thesis
    unfolding conjunct1 [OF h] conjunct2 [OF h]
    using fs_open_verifier_denies [of E req _ s] extractClaims_Inl_not_OK [of E req]
      fs_open_policy_denies [OF _ p, of E _ s] policyError_not_OK [of "ReqID req"]
      fs_open_revoked_denies [OF _ p, of E _ s] ErrorResponse_not_OK [of "ReqID req" 3 "''capability revoked''"]
      fs_open_touch [OF _ _ p, of E s]
    by (intro conjI allI impI) blast+
next
  assume h: "handler = fs_list \<and> method = ''fs.list''"
  show ?thesis
    unfolding conjunct1 [OF h] conjunct2 [OF h]
    using fs_list_verifier_denies [of E req _ s] extractClaims_Inl_not_OK [of E req]
      fs_list_policy_denies [OF _ p, of E _ s] policyError_not_OK [of "ReqID req"]
      fs_list_revoked_denies [OF _ p, of E _ s] ErrorResponse_not_OK [of "ReqID req" 3 "''capability revoked''"]
      fs_list_touch [OF _ _ p, of E s]
    by (intro conjI allI impI) blast+
qed

text \<open>Three denials on \<^verbatim>\<open>fs.list\<close> and \<^verbatim>\<open>fs.open\<close>: a token without the header (verifier),
  the path \<^verbatim>\<open>/etc\<close> under prefix \<^verbatim>\<open>/tmp\<close> (policy), and the revoked sample capability.\<close>

theorem denial_never_touches_resource_witness:
  "extractClaims (demoEnv 0) (request ''fs.open'' ''bad'' [(''path'', VString ''/tmp/x'')]) =
      Inl (ErrorResponse ''r'' 2 ''invalid token: invalid token header'')
   \<and> fs_open (demoEnv 0) (request ''fs.open'' ''bad'' [(''path'', VString ''/tmp/x'')]) afterOpen =
      (Reply (ErrorResponse ''r'' 2 ''invalid token: invalid token header''), afterOpen)
   \<and> extractClaims (demoEnv 0) (request ''fs.list'' (tokenOf demoClaims) [(''path'', VString ''/etc'')]) =
      Inr (Some demoClaims)
   \<and> fst (Authorize (e_lib (demoEnv 0)) (e_clock (demoEnv 0)) (Some demoClaims) ''fs.list''
          [''path'' \<mapsto> VString ''/etc''] (limiter afterOpen)) =
      Some \<lparr>Code = 3, Name = ''PERMISSION_DENIED'', Message = ''path /etc outside allowed prefix /tmp''\<rparr>
   \<and> fst (fs_list (demoEnv 0) (request ''fs.list'' (tokenOf demoClaims) [(''path'', VString ''/etc'')]) afterOpen) =
      Reply (policyError ''r''
        \<lparr>Code = 3, Name = ''PERMISSION_DENIED'', Message = ''path /etc outside allowed prefix /tmp''\<rparr>)
   \<and> oslog (snd (fs_list (demoEnv 0) (request ''fs.list'' (tokenOf demoClaims) [(''path'', VString ''/etc'')]) afterOpen)) =
      oslog afterOpen
   \<and> ID demoClaims \<in> revoked (table afterRevoke)
   \<and> fst (fs_open (demoEnv 0) openReq afterRevoke) =
      Reply (ErrorResponse ''r'' 3 ''capability revoked'')
   \<and> table (snd (fs_open (demoEnv 0) openReq afterRevoke)) = table afterRevoke"
proof -
  let ?E = "demoEnv 0"
  let ?r1 = "request ''fs.open'' ''bad'' [(''path'', VString ''/tmp/x'')]"
  let ?r2 = "request ''fs.list'' (tokenOf demoClaims) [(''path'', VString ''/etc'')]"
  let ?pe = "\<lparr>Code = 3, Name = ''PERMISSION_DENIED'', Message = ''path /etc outside allowed prefix /tmp''\<rparr>"
  have ho: "fs_open = fs_open \<and> ''fs.open'' = ''fs.open'' \<or> fs_open = fs_list \<and> ''fs.open'' = ''fs.list''"
    by simp
  have hl: "fs_list = fs_open \<and> ''fs.list'' = ''fs.open'' \<or> fs_list = fs_list \<and> ''fs.list'' = ''fs.list''"
    by simp
  have p1: "asString (Params ?r1) ''path'' = ''/tmp/x''" by code_simp
  have p2: "asString (Params ?r2) ''path'' = ''/etc''" by code_simp
  have p3: "asString (Params openReq) ''path'' = ''/tmp/x''" by code_simp
  have i1: "ReqID ?r1 = ''r''" by (simp add: request_def)
  have i2: "ReqID ?r2 = ''r''" by (simp add: request_def)
  have i3: "ReqID openReq = ''r''" by (simp add: openReq_def request_def)
  have n2: "''/etc'' \<noteq> []" by simp
  have n3: "''/tmp/x'' \<noteq> []" by simp
  have e1: "extractClaims ?E ?r1 = Inl (ErrorResponse ''r'' 2 ''invalid token: invalid token header'')"
    by code_simp
  have e2: "extractClaims ?E ?r2 = Inr (Some demoClaims)" by code_simp
  have e3: "extractClaims ?E openReq = Inr (Some demoClaims)" by code_simp
  have a2: "fst (Authorize (e_lib ?E) (e_clock ?E) (Some demoClaims) ''fs.list''
          [''path'' \<mapsto> VString ''/etc''] (limiter afterOpen)) = Some ?pe"
    by code_simp
  have a3: "fst (Authorize (e_lib ?E) (e_clock ?E) (Some demoClaims) ''fs.open''
          [''path'' \<mapsto> VString ''/tmp/x''] (limiter afterRevoke)) = None"
    by code_simp
  have rv: "ID demoClaims \<in> revoked (table afterRevoke)" by code_simp
  from denial_never_touches_resource [OF ho p1, of ?E afterOpen] e1
  have c1: "fs_open ?E ?r1 afterOpen =
      (Reply (ErrorResponse ''r'' 2 ''invalid token: invalid token header''), afterOpen)"
    by (elim conjE allE [of _ "ErrorResponse ''r'' 2 ''invalid token: invalid token header''"] impE)
       assumption+
  have "fs_list ?E ?r2 afterOpen =
      (Reply (policyError (ReqID ?r2) ?pe),
       afterOpen\<lparr>limiter := snd (Authorize (e_lib ?E) (e_clock ?E) (Some demoClaims) ''fs.list''
          [''path'' \<mapsto> VString ''/etc''] (limiter afterOpen))\<rparr>)"
    using denial_never_touches_resource [OF hl p2, of ?E afterOpen] e2 n2 a2 by blast
  then have c2: "fst (fs_list ?E ?r2 afterOpen) = Reply (policyError ''r'' ?pe)"
    and c2': "oslog (snd (fs_list ?E ?r2 afterOpen)) = oslog afterOpen"
    unfolding i2 by simp_all
  have "fs_open ?E openReq afterRevoke =
      (Reply (ErrorResponse (ReqID openReq) 3 ''capability revoked''),
       afterRevoke\<lparr>limiter := snd (Authorize (e_lib ?E) (e_clock ?E) (Some demoClaims) ''fs.open''
          [''path'' \<mapsto> VString ''/tmp/x''] (limiter afterRevoke))\<rparr>)"
    using denial_never_touches_resource [OF ho p3, of ?E afterRevoke] e3 n3 a3 rv by blast
  then have c3: "fst (fs_open ?E openReq afterRevoke) = Reply (ErrorResponse ''r'' 3 ''capability revoked'')"
    and c3': "table (snd (fs_open ?E openReq afterRevoke)) = table afterRevoke"
    unfolding i3 by simp_all
  from e1 c1 e2 a2 c2 c2' rv c3 c3' show ?thesis by (intro conjI)
qed




lemma fs_read_revoked_denies:
  assumes "extractClaims E req = Inr (Some c)"
    and "fst (Authorize (e_lib E) (e_clock E) (Some c) ''fs.read'' Map.empty (limiter s)) = None"
    and "asString (Params req) ''handle'' = h" and "h \<noteq> []"
    and "handles (table s) h = Some entry" and "e_capID entry = ID c"
    and "ID c \<in> revoked (table s)"
  shows "fs_read E req s =
     (Reply (ErrorResponse (ReqID req) 3 ''capability revoked''),
      s\<lparr>limiter := snd (Authorize (e_lib E) (e_clock E) (Some c) ''fs.read'' Map.empty (limiter s))\<rparr>)"
  using assms
  by (auto simp: fs_read_def Let_def handleTable_Get_def handleTable_IsRevoked_def ErrPermDenied_def
           split: prod.splits)

text \<open>A read reaches the file only for the capability stored in the entry, not revoked.\<close>

lemma fs_read_touch:
  assumes "fs_read E req s = (out, s')"
    and "oslog s' \<noteq> oslog s \<or> table s' \<noteq> table s \<or> (\<exists>resp. out = Reply resp \<and> OK resp) \<or> out = Panic"
  shows "\<exists>c entry. extractClaims E req = Inr (Some c)
           \<and> fst (Authorize (e_lib E) (e_clock E) (Some c) ''fs.read'' Map.empty (limiter s)) = None
           \<and> handles (table s) (asString (Params req) ''handle'') = Some entry
           \<and> e_capID entry = ID c \<and> ID c \<notin> revoked (table s)"
proof (cases "extractClaims E req")
  case (Inl r)
  with assms extractClaims_Inl_not_OK [OF Inl] show ?thesis
    by (auto simp: fs_read_def)
next
  case (Inr claims)
  obtain r lm where A: "Authorize (e_lib E) (e_clock E) claims ''fs.read'' Map.empty (limiter s) = (r, lm)"
    by (cases "Authorize (e_lib E) (e_clock E) claims ''fs.read'' Map.empty (limiter s)")
  show ?thesis
  proof (cases r)
    case (Some err)
    with assms Inr A show ?thesis
      by (auto simp: fs_read_def policyError_def ErrorResponse_def)
  next
    case None
    with A Authorize_nil_denied [of "e_lib E" "e_clock E" "''fs.read''" Map.empty "limiter s"]
    obtain c where c: "claims = Some c" by (cases claims) auto
    from assms Inr A None c show ?thesis
      by (auto simp: fs_read_def Let_def handleTable_Get_def handleTable_IsRevoked_def
                     ErrorResponse_def
               split: if_splits option.splits readResult.splits)
  qed
qed

lemma fs_open_outcome:
  assumes "fs_open E req s = (out, s')"
    and "(\<exists>resp. out = Reply resp \<and> OK resp) \<or> out = Panic"
  shows "oslog s' \<noteq> oslog s"
proof (cases "extractClaims E req")
  case (Inl r)
  with assms extractClaims_Inl_not_OK [OF Inl] show ?thesis
    by (auto simp: fs_open_def)
next
  case (Inr claims)
  let ?p = "asString (Params req) ''path''"
  obtain r lm where A: "Authorize (e_lib E) (e_clock E) claims ''fs.open'' [''path'' \<mapsto> VString ?p] (limiter s) = (r, lm)"
    by (cases "Authorize (e_lib E) (e_clock E) claims ''fs.open'' [''path'' \<mapsto> VString ?p] (limiter s)")
  show ?thesis
  proof (cases r)
    case (Some err)
    with assms Inr A show ?thesis
      by (auto simp: fs_open_def Let_def policyError_def ErrorResponse_def split: if_splits)
  next
    case None
    with A Authorize_nil_denied [of "e_lib E" "e_clock E" "''fs.open''" "[''path'' \<mapsto> VString ?p]" "limiter s"]
    obtain c where c: "claims = Some c" by (cases claims) auto
    have lg: "oslog (snd (handleTable_Open E ?p (ID c) (s\<lparr>limiter := lm\<rparr>))) = OsOpen ?p # oslog s"
      by (simp add: handleTable_Open_log)
    from assms Inr A None c lg show ?thesis
      by (auto simp: fs_open_def Let_def ErrorResponse_def
               split: if_splits prod.splits sum.splits)
  qed
qed

lemma fs_list_outcome:
  assumes "fs_list E req s = (out, s')"
    and "(\<exists>resp. out = Reply resp \<and> OK resp) \<or> out = Panic"
  shows "oslog s' \<noteq> oslog s"
proof (cases "extractClaims E req")
  case (Inl r)
  with assms extractClaims_Inl_not_OK [OF Inl] show ?thesis
    by (auto simp: fs_list_def)
next
  case (Inr claims)
  let ?p = "asString (Params req) ''path''"
  obtain r lm where A: "Authorize (e_lib E) (e_clock E) claims ''fs.list'' [''path'' \<mapsto> VString ?p] (limiter s) = (r, lm)"
    by (cases "Authorize (e_lib E) (e_clock E) claims ''fs.list'' [''path'' \<mapsto> VString ?p] (limiter s)")
  show ?thesis
  proof (cases r)
    case (Some err)
    with assms Inr A show ?thesis
      by (auto simp: fs_list_def Let_def policyError_def ErrorResponse_def split: if_splits)
  next
    case None
    with A Authorize_nil_denied [of "e_lib E" "e_clock E" "''fs.list''" "[''path'' \<mapsto> VString ?p]" "limiter s"]
    obtain c where c: "claims = Some c" by (cases claims) auto
    from assms Inr A None c show ?thesis
      by (auto simp: fs_list_def Let_def ErrorResponse_def
               split: if_splits prod.splits sum.splits)
  qed
qed






lemma fs_open_under_revoked:
  assumes "extractClaims E req = Inr (Some c)" and "ID c \<in> revoked (table s)"
  shows "\<exists>resp. fst (fs_open E req s) = Reply resp \<and> \<not> OK resp
           \<and> oslog (snd (fs_open E req s)) = oslog s \<and> table (snd (fs_open E req s)) = table s"
proof -
  obtain out s' where e: "fs_open E req s = (out, s')" by (cases "fs_open E req s")
  have nt: "\<not> (oslog s' \<noteq> oslog s \<or> table s' \<noteq> table s)"
    using fs_open_touch [OF e _ refl] assms by auto
  then have "\<not> ((\<exists>resp. out = Reply resp \<and> OK resp) \<or> out = Panic)"
    using fs_open_outcome [OF e] by blast
  then obtain resp where "out = Reply resp" and "\<not> OK resp" by (cases out) auto
  with e nt show ?thesis by simp
qed

lemma fs_list_under_revoked:
  assumes "extractClaims E req = Inr (Some c)" and "ID c \<in> revoked (table s)"
  shows "\<exists>resp. fst (fs_list E req s) = Reply resp \<and> \<not> OK resp
           \<and> oslog (snd (fs_list E req s)) = oslog s \<and> table (snd (fs_list E req s)) = table s"
proof -
  obtain out s' where e: "fs_list E req s = (out, s')" by (cases "fs_list E req s")
  have nt: "\<not> (oslog s' \<noteq> oslog s \<or> table s' \<noteq> table s)"
    using fs_list_touch [OF e _ refl] assms by auto
  then have "\<not> ((\<exists>resp. out = Reply resp \<and> OK resp) \<or> out = Panic)"
    using fs_list_outcome [OF e] by blast
  then obtain resp where "out = Reply resp" and "\<not> OK resp" by (cases out) auto
  with e nt show ?thesis by simp
qed

lemma fs_read_under_revoked:
  assumes "extractClaims E req = Inr (Some c)" and "ID c \<in> revoked (table s)"
  shows "\<exists>resp. fst (fs_read E req s) = Reply resp \<and> \<not> OK resp
           \<and> oslog (snd (fs_read E req s)) = oslog s \<and> table (snd (fs_read E req s)) = table s"
proof -
  obtain out s' where e: "fs_read E req s = (out, s')" by (cases "fs_read E req s")
  have nt: "\<not> (oslog s' \<noteq> oslog s \<or> table s' \<noteq> table s
             \<or> (\<exists>resp. out = Reply resp \<and> OK resp) \<or> out = Panic)"
    using fs_read_touch [OF e] assms by auto
  then obtain resp where "out = Reply resp" and "\<not> OK resp" by (cases out) auto
  with e nt show ?thesis by simp
qed

lemma handleTable_Open_revoked:
  "revoked (table (snd (handleTable_Open E p cid s))) = revoked (table s)"
  by (simp add: handleTable_Open_def Let_def split: sum.splits)

lemma handleTable_Open_revoked_eq:
  "handleTable_Open E p cid s = (r, s') \<Longrightarrow> revoked (table s') = revoked (table s)"
  using handleTable_Open_revoked [of E p cid s] by simp

lemma fs_open_revoked_same: "revoked (table (snd (fs_open E req s))) = revoked (table s)"
  by (auto simp: fs_open_def Let_def split: sum.splits prod.splits option.splits if_splits
           dest: handleTable_Open_revoked_eq)

lemma fs_list_revoked_same: "revoked (table (snd (fs_list E req s))) = revoked (table s)"
  by (auto simp: fs_list_def Let_def split: sum.splits prod.splits option.splits if_splits)

lemma fs_read_revoked_same: "revoked (table (snd (fs_read E req s))) = revoked (table s)"
  by (auto simp: fs_read_def Let_def split: sum.splits prod.splits option.splits if_splits readResult.splits)

lemma fs_revoke_revoked: "revoked (table s) \<subseteq> revoked (table (snd (fs_revoke req s)))"
  by (auto simp: fs_revoke_def Let_def handleTable_Revoke_def)

lemma fs_revoke_adds:
  "asString (Params rq) ''cap_id'' = C \<Longrightarrow> C \<noteq> [] \<Longrightarrow> C \<in> revoked (table (snd (fs_revoke rq s)))"
  by (simp add: fs_revoke_def Let_def handleTable_Revoke_def)

lemma serve_revoked_mono: "C \<in> revoked (table s) \<Longrightarrow> C \<in> revoked (table (snd (serve E req s)))"
  using fs_revoke_revoked [of s req]
  by (auto simp: serve_def fs_open_revoked_same fs_list_revoked_same fs_read_revoked_same)

lemma serveAll_revoked_mono:
  "C \<in> revoked (table s) \<Longrightarrow> C \<in> revoked (table (serveAll steps s))"
proof (induction steps arbitrary: s)
  case Nil
  then show ?case by simp
next
  case (Cons x steps)
  obtain E req where x: "x = (E, req)" by (cases x)
  from Cons.prems have "C \<in> revoked (table (snd (serve E req s)))" by (rule serve_revoked_mono)
  then show ?case unfolding x by (simp add: Cons.IH)
qed

lemma fs_open_after_revoke:
  assumes ec: "extractClaims E req = Inr (Some c)" and rc: "ID c \<in> revoked (table s)"
    and p: "asString (Params req) ''path'' = p"
  shows "\<exists>resp. fst (fs_open E req s) = Reply resp \<and> \<not> OK resp
            \<and> oslog (snd (fs_open E req s)) = oslog s \<and> table (snd (fs_open E req s)) = table s
            \<and> (p \<noteq> [] \<longrightarrow>
                 fst (Authorize (e_lib E) (e_clock E) (Some c) ''fs.open'' [''path'' \<mapsto> VString p] (limiter s)) = None \<longrightarrow>
                 resp = ErrorResponse (ReqID req) 3 ''capability revoked'')"
proof -
  from fs_open_under_revoked [OF ec rc] obtain resp where
    r1: "fst (fs_open E req s) = Reply resp" and r2: "\<not> OK resp"
    and r3: "oslog (snd (fs_open E req s)) = oslog s" and r4: "table (snd (fs_open E req s)) = table s"
    by (elim exE conjE)
  have i: "p \<noteq> [] \<longrightarrow>
      fst (Authorize (e_lib E) (e_clock E) (Some c) ''fs.open'' [''path'' \<mapsto> VString p] (limiter s)) = None \<longrightarrow>
      resp = ErrorResponse (ReqID req) 3 ''capability revoked''"
  proof (intro impI)
    assume pn: "p \<noteq> []"
      and au: "fst (Authorize (e_lib E) (e_clock E) (Some c) ''fs.open'' [''path'' \<mapsto> VString p] (limiter s)) = None"
    have "fst (fs_open E req s) = Reply (ErrorResponse (ReqID req) 3 ''capability revoked'')"
      by (subst fs_open_revoked_denies [OF ec p pn au rc]) (rule fst_conv)
    with r1 show "resp = ErrorResponse (ReqID req) 3 ''capability revoked''" by simp
  qed
  from r1 r2 r3 r4 i show ?thesis by (intro exI [of _ resp] conjI)
qed

lemma fs_list_after_revoke:
  assumes ec: "extractClaims E req = Inr (Some c)" and rc: "ID c \<in> revoked (table s)"
    and p: "asString (Params req) ''path'' = p"
  shows "\<exists>resp. fst (fs_list E req s) = Reply resp \<and> \<not> OK resp
            \<and> oslog (snd (fs_list E req s)) = oslog s \<and> table (snd (fs_list E req s)) = table s
            \<and> (p \<noteq> [] \<longrightarrow>
                 fst (Authorize (e_lib E) (e_clock E) (Some c) ''fs.list'' [''path'' \<mapsto> VString p] (limiter s)) = None \<longrightarrow>
                 resp = ErrorResponse (ReqID req) 3 ''capability revoked'')"
proof -
  from fs_list_under_revoked [OF ec rc] obtain resp where
    r1: "fst (fs_list E req s) = Reply resp" and r2: "\<not> OK resp"
    and r3: "oslog (snd (fs_list E req s)) = oslog s" and r4: "table (snd (fs_list E req s)) = table s"
    by (elim exE conjE)
  have i: "p \<noteq> [] \<longrightarrow>
      fst (Authorize (e_lib E) (e_clock E) (Some c) ''fs.list'' [''path'' \<mapsto> VString p] (limiter s)) = None \<longrightarrow>
      resp = ErrorResponse (ReqID req) 3 ''capability revoked''"
  proof (intro impI)
    assume pn: "p \<noteq> []"
      and au: "fst (Authorize (e_lib E) (e_clock E) (Some c) ''fs.list'' [''path'' \<mapsto> VString p] (limiter s)) = None"
    have "fst (fs_list E req s) = Reply (ErrorResponse (ReqID req) 3 ''capability revoked'')"
      by (subst fs_list_revoked_denies [OF ec p pn au rc]) (rule fst_conv)
    with r1 show "resp = ErrorResponse (ReqID req) 3 ''capability revoked''" by simp
  qed
  from r1 r2 r3 r4 i show ?thesis by (intro exI [of _ resp] conjI)
qed

lemma fs_read_after_revoke:
  assumes ec: "extractClaims E req = Inr (Some c)" and rc: "ID c \<in> revoked (table s)"
    and h: "asString (Params req) ''handle'' = h"
  shows "\<exists>resp. fst (fs_read E req s) = Reply resp \<and> \<not> OK resp
            \<and> oslog (snd (fs_read E req s)) = oslog s \<and> table (snd (fs_read E req s)) = table s
            \<and> (h \<noteq> [] \<longrightarrow>
                 fst (Authorize (e_lib E) (e_clock E) (Some c) ''fs.read'' Map.empty (limiter s)) = None \<longrightarrow>
                 (\<exists>entry. handles (table s) h = Some entry \<and> e_capID entry = ID c) \<longrightarrow>
                 resp = ErrorResponse (ReqID req) 3 ''capability revoked'')"
proof -
  from fs_read_under_revoked [OF ec rc] obtain resp where
    r1: "fst (fs_read E req s) = Reply resp" and r2: "\<not> OK resp"
    and r3: "oslog (snd (fs_read E req s)) = oslog s" and r4: "table (snd (fs_read E req s)) = table s"
    by (elim exE conjE)
  have i: "h \<noteq> [] \<longrightarrow>
      fst (Authorize (e_lib E) (e_clock E) (Some c) ''fs.read'' Map.empty (limiter s)) = None \<longrightarrow>
      (\<exists>entry. handles (table s) h = Some entry \<and> e_capID entry = ID c) \<longrightarrow>
      resp = ErrorResponse (ReqID req) 3 ''capability revoked''"
  proof (intro impI)
    assume hn: "h \<noteq> []"
      and au: "fst (Authorize (e_lib E) (e_clock E) (Some c) ''fs.read'' Map.empty (limiter s)) = None"
      and en: "\<exists>entry. handles (table s) h = Some entry \<and> e_capID entry = ID c"
    from en obtain entry where e1: "handles (table s) h = Some entry" and e2: "e_capID entry = ID c"
      by (elim exE conjE)
    have "fst (fs_read E req s) = Reply (ErrorResponse (ReqID req) 3 ''capability revoked'')"
      by (subst fs_read_revoked_denies [OF ec au h hn e1 e2 rc]) (rule fst_conv)
    with r1 show "resp = ErrorResponse (ReqID req) 3 ''capability revoked''" by simp
  qed
  from r1 r2 r3 r4 i show ?thesis by (intro exI [of _ resp] conjI)
qed

subsection \<open>Interleaved handlers\<close>

lemma fs_open_drain:
  "drain 4 E req (fs_open_begin E req s) = (Inl (fst (fs_open E req s)), snd (fs_open E req s))"
proof (cases "extractClaims E req")
  case (Inl r)
  then show ?thesis by (simp add: fs_open_def fs_open_begin_def numeral_nat)
next
  case (Inr claims)
  let ?p = "asString (Params req) ''path''"
  show ?thesis
  proof (cases "?p = []")
    case True
    with Inr show ?thesis by (simp add: fs_open_def fs_open_begin_def numeral_nat)
  next
    case False
    obtain r lm where A: "Authorize (e_lib E) (e_clock E) claims ''fs.open'' [''path'' \<mapsto> VString ?p] (limiter s) = (r, lm)"
      by (cases "Authorize (e_lib E) (e_clock E) claims ''fs.open'' [''path'' \<mapsto> VString ?p] (limiter s)")
    show ?thesis
    proof (cases r)
      case (Some err)
      with Inr False A show ?thesis by (simp add: fs_open_def fs_open_begin_def numeral_nat)
    next
      case None
      show ?thesis
      proof (cases claims)
        case nil: None
        with Inr False A None show ?thesis by (simp add: fs_open_def fs_open_begin_def numeral_nat)
      next
        case (Some c)
        with Inr False A None show ?thesis
          by (simp add: fs_open_def fs_open_begin_def numeral_nat handleTable_Open_def Let_def
              split: sum.splits)
      qed
    qed
  qed
qed

lemma fs_list_drain:
  "drain 2 E req (fs_list_begin E req s) = (Inl (fst (fs_list E req s)), snd (fs_list E req s))"
proof (cases "extractClaims E req")
  case (Inl r)
  then show ?thesis by (simp add: fs_list_def fs_list_begin_def numeral_nat)
next
  case (Inr claims)
  let ?p = "asString (Params req) ''path''"
  show ?thesis
  proof (cases "?p = []")
    case True
    with Inr show ?thesis by (simp add: fs_list_def fs_list_begin_def numeral_nat)
  next
    case False
    obtain r lm where A: "Authorize (e_lib E) (e_clock E) claims ''fs.list'' [''path'' \<mapsto> VString ?p] (limiter s) = (r, lm)"
      by (cases "Authorize (e_lib E) (e_clock E) claims ''fs.list'' [''path'' \<mapsto> VString ?p] (limiter s)")
    show ?thesis
    proof (cases r)
      case (Some err)
      with Inr False A show ?thesis by (simp add: fs_list_def fs_list_begin_def numeral_nat)
    next
      case None
      show ?thesis
      proof (cases claims)
        case nil: None
        with Inr False A None show ?thesis by (simp add: fs_list_def fs_list_begin_def numeral_nat)
      next
        case (Some c)
        with Inr False A None show ?thesis
          by (simp add: fs_list_def fs_list_begin_def numeral_nat Let_def split: sum.splits)
      qed
    qed
  qed
qed

lemma fs_read_drain:
  "drain 3 E req (fs_read_begin E req s) = (Inl (fst (fs_read E req s)), snd (fs_read E req s))"
proof (cases "extractClaims E req")
  case (Inl r)
  then show ?thesis by (simp add: fs_read_def fs_read_begin_def numeral_nat)
next
  case (Inr claims)
  obtain r lm where A: "Authorize (e_lib E) (e_clock E) claims ''fs.read'' Map.empty (limiter s) = (r, lm)"
    by (cases "Authorize (e_lib E) (e_clock E) claims ''fs.read'' Map.empty (limiter s)")
  show ?thesis
  proof (cases r)
    case (Some err)
    with Inr A show ?thesis by (simp add: fs_read_def fs_read_begin_def numeral_nat)
  next
    case None
    let ?h = "asString (Params req) ''handle''"
    show ?thesis
    proof (cases "?h = []")
      case True
      with Inr A None show ?thesis by (simp add: fs_read_def fs_read_begin_def numeral_nat)
    next
      case False
      show ?thesis
      proof (cases "handleTable_Get (table s) ?h")
        case nf: None
        with Inr A None False show ?thesis by (simp add: fs_read_def fs_read_begin_def numeral_nat)
      next
        case (Some entry)
        show ?thesis
        proof (cases claims)
          case nil: None
          with Inr A None False Some show ?thesis by (simp add: fs_read_def fs_read_begin_def numeral_nat)
        next
          case cl: (Some c)
          with Inr A None False Some show ?thesis
            by (simp add: fs_read_def fs_read_begin_def numeral_nat Let_def split: readResult.splits)
        qed
      qed
    qed
  qed
qed

lemma advance_revoked_same: "revoked (table (snd (advance E req pd s))) = revoked (table s)"
  by (cases pd) (simp_all add: Let_def split: sum.splits option.splits readResult.splits)

lemma begin_keeps:
  "table (snd (fs_open_begin E req s)) = table s \<and> oslog (snd (fs_open_begin E req s)) = oslog s"
  "table (snd (fs_list_begin E req s)) = table s \<and> oslog (snd (fs_list_begin E req s)) = oslog s"
  "table (snd (fs_read_begin E req s)) = table s \<and> oslog (snd (fs_read_begin E req s)) = oslog s"
  by (auto simp add: fs_open_begin_def fs_list_begin_def fs_read_begin_def Let_def
      split: sum.splits option.splits prod.splits)

lemma beginHandler_keeps:
  assumes "beginHandler E req s = Some b"
  shows "table (snd b) = table s \<and> oslog (snd b) = oslog s"
proof -
  from assms have "b = fs_open_begin E req s \<or> b = fs_read_begin E req s \<or> b = fs_list_begin E req s"
    by (auto simp add: beginHandler_def split: if_splits)
  then show ?thesis using begin_keeps [of E req s] by (elim disjE) simp_all
qed

lemma begin_stage:
  "fs_open_begin E req s = (Inr pd, s') \<Longrightarrow> \<not> past C pd"
  "fs_list_begin E req s = (Inr pd, s') \<Longrightarrow> \<not> past C pd"
  "fs_read_begin E req s = (Inr pd, s') \<Longrightarrow> \<not> past C pd"
  by (auto simp add: fs_open_begin_def fs_list_begin_def fs_read_begin_def Let_def
      split: sum.splits option.splits prod.splits if_splits)

lemma beginHandler_stage:
  assumes "beginHandler E req s = Some (Inr pd, s')"
  shows "\<not> past C pd"
proof -
  from assms have "fs_open_begin E req s = (Inr pd, s') \<or> fs_read_begin E req s = (Inr pd, s')
      \<or> fs_list_begin E req s = (Inr pd, s')"
    by (auto simp add: beginHandler_def split: if_splits)
  then show ?thesis using begin_stage [of E req s pd s' C] by (elim disjE) simp_all
qed

lemma advance_past:
  assumes "C \<in> revoked (table s)" and "advance E req pd s = (Inr pd', s')" and "past C pd'"
  shows "past C pd"
  using assms
  by (cases pd)
     (auto simp add: Let_def handleTable_IsRevoked_def
       split: sum.splits option.splits readResult.splits if_splits)

lemma advance_under:
  assumes "C \<in> revoked (table s)" and "under C pd" and "\<not> past C pd"
  shows "snd (advance E req pd s) = s
       \<and> (case fst (advance E req pd s) of
            Inl r \<Rightarrow> \<exists>resp. r = Reply resp \<and> \<not> OK resp
          | Inr pd' \<Rightarrow> under C pd' \<and> \<not> past C pd')"
  using assms
  by (cases pd)
     (auto simp add: Let_def handleTable_IsRevoked_def ErrorResponse_not_OK
       split: sum.splits option.splits readResult.splits if_splits)

lemma advance_check:
  assumes "C \<in> revoked (table s)"
  shows "advance E req (OpenRevoked p C) s =
           (Inl (Reply (ErrorResponse (ReqID req) 3 ''capability revoked'')), s)"
    and "advance E req (ListRevoked p C) s =
           (Inl (Reply (ErrorResponse (ReqID req) 3 ''capability revoked'')), s)"
    and "e_capID entry = C \<Longrightarrow> advance E req (ReadRevoked entry) s =
           (Inl (Reply (ErrorResponse (ReqID req) 3 ''capability revoked'')), s)"
  using assms by (simp_all add: handleTable_IsRevoked_def ErrPermDenied_def)

lemma begin_under:
  assumes "extractClaims E req = Inr (Some c)"
  shows "case fst (fs_open_begin E req s) of
            Inl r \<Rightarrow> \<exists>resp. r = Reply resp \<and> \<not> OK resp
          | Inr pd \<Rightarrow> under (ID c) pd \<and> \<not> past (ID c) pd"
    and "case fst (fs_list_begin E req s) of
            Inl r \<Rightarrow> \<exists>resp. r = Reply resp \<and> \<not> OK resp
          | Inr pd \<Rightarrow> under (ID c) pd \<and> \<not> past (ID c) pd"
    and "case fst (fs_read_begin E req s) of
            Inl r \<Rightarrow> \<exists>resp. r = Reply resp \<and> \<not> OK resp
          | Inr pd \<Rightarrow> under (ID c) pd \<and> \<not> past (ID c) pd"
  using assms
  by (auto simp add: fs_open_begin_def fs_list_begin_def fs_read_begin_def Let_def
        ErrorResponse_not_OK policyError_not_OK
      split: sum.splits option.splits prod.splits if_splits)

lemma inflight_cons:
  "inflight C (cs\<lparr>c_state := s', c_pending := (k, E, req, pd) # xs\<rparr>) =
     (if past C pd then [k] else []) @ inflight C (cs\<lparr>c_pending := xs\<rparr>)"
  by (simp add: inflight_def)

lemma inflight_others:
  "set (inflight C (cs\<lparr>c_pending := others k (c_pending cs)\<rparr>)) \<subseteq> set (inflight C cs)"
  by (auto simp add: inflight_def others_def)

lemma inflight_state: "inflight C (cs\<lparr>c_state := s'\<rparr>) = inflight C cs"
  by (simp add: inflight_def)

lemma inflight_mem:
  assumes "map_of (c_pending cs) k = Some (E, req, pd)" and "past C pd"
  shows "k \<in> set (inflight C cs)"
proof -
  from assms(1) have "(k, E, req, pd) \<in> set (c_pending cs)" by (rule map_of_SomeD)
  with assms(2) have "(k, E, req, pd) \<in> set (filter (\<lambda>x. past C (snd (snd (snd x)))) (c_pending cs))"
    by simp
  then have "fst (k, E, req, pd) \<in> fst ` set (filter (\<lambda>x. past C (snd (snd (snd x)))) (c_pending cs))"
    by (rule imageI)
  then show ?thesis by (simp add: inflight_def)
qed

lemma stepC_Begin_inv:
  assumes rv: "C \<in> revoked (table (c_state cs))"
  shows "C \<in> revoked (table (c_state (snd (stepC (Begin k E req) cs))))
       \<and> set (inflight C (snd (stepC (Begin k E req) cs))) \<subseteq> set (inflight C cs)"
proof (cases "map_of (c_pending cs) k")
  case (Some busy)
  with rv show ?thesis by simp
next
  case None
  show ?thesis
  proof (cases "V req \<noteq> 1")
    case True
    with None rv show ?thesis by simp
  next
    case False
    show ?thesis
    proof (cases "beginHandler E req (c_state cs)")
      case nb: None
      show ?thesis
      proof (cases "Method req = ''fs.revoke''")
        case True
        obtain r s' where fr: "fs_revoke req (c_state cs) = (r, s')"
          by (cases "fs_revoke req (c_state cs)")
        from fs_revoke_revoked [of "c_state cs" req] fr rv have "C \<in> revoked (table s')" by auto
        with None False nb True fr show ?thesis by (simp add: inflight_state)
      next
        case nr: False
        with None False nb rv show ?thesis by simp
      qed
    next
      case (Some b)
      obtain x s' where b: "b = (x, s')" by (cases b)
      from beginHandler_keeps [OF Some] b have t: "table s' = table (c_state cs)" by simp
      show ?thesis
      proof (cases x)
        case (Inl r)
        with None False Some b t rv show ?thesis by (simp add: inflight_state)
      next
        case (Inr pd)
        from Some b Inr have "beginHandler E req (c_state cs) = Some (Inr pd, s')" by simp
        then have np: "\<not> past C pd" by (rule beginHandler_stage)
        have "inflight C (cs\<lparr>c_state := s', c_pending := (k, E, req, pd) # c_pending cs\<rparr>) = inflight C cs"
          using np by (simp add: inflight_def)
        with None False Some b Inr t rv show ?thesis by simp
      qed
    qed
  qed
qed

lemma stepC_Resume_inv:
  assumes rv: "C \<in> revoked (table (c_state cs))"
  shows "C \<in> revoked (table (c_state (snd (stepC (Resume k) cs))))
       \<and> set (inflight C (snd (stepC (Resume k) cs))) \<subseteq> set (inflight C cs)"
proof (cases "map_of (c_pending cs) k")
  case None
  with rv show ?thesis by simp
next
  case (Some v)
  obtain E req pd where v: "v = (E, req, pd)" by (cases v)
  obtain x s' where a: "advance E req pd (c_state cs) = (x, s')"
    by (cases "advance E req pd (c_state cs)")
  from advance_revoked_same [of E req pd "c_state cs"] a rv
  have rv': "C \<in> revoked (table s')" by simp
  have ot: "set (map fst (filter (\<lambda>x. past C (snd (snd (snd x)))) (others k (c_pending cs))))
              \<subseteq> set (inflight C cs)"
    by (auto simp add: inflight_def others_def)
  show ?thesis
  proof (cases x)
    case (Inl r)
    with Some v a rv' ot show ?thesis by (simp add: inflight_def)
  next
    case (Inr pd')
    show ?thesis
    proof (cases "past C pd'")
      case True
      from a Inr have "advance E req pd (c_state cs) = (Inr pd', s')" by simp
      with rv have "past C pd" using True by (rule advance_past)
      with Some v have "k \<in> set (inflight C cs)" by (simp add: inflight_mem)
      with Some v a Inr rv' ot show ?thesis by (simp add: inflight_def)
    next
      case False
      with Some v a Inr rv' ot show ?thesis by (simp add: inflight_def)
    qed
  qed
qed

lemma stepC_inv:
  assumes "C \<in> revoked (table (c_state cs))"
  shows "C \<in> revoked (table (c_state (snd (stepC st cs))))
       \<and> set (inflight C (snd (stepC st cs))) \<subseteq> set (inflight C cs)"
proof (cases st)
  case (Begin k E req)
  show ?thesis unfolding Begin using assms by (rule stepC_Begin_inv)
next
  case (Resume k)
  show ?thesis unfolding Resume using assms by (rule stepC_Resume_inv)
qed

lemma runC_snd: "snd (runC (x # xs) cs) = snd (runC xs (snd (stepC x cs)))"
  by (simp split: prod.splits)

lemma runC_inv:
  "C \<in> revoked (table (c_state cs)) \<Longrightarrow>
     C \<in> revoked (table (c_state (snd (runC steps cs))))
     \<and> set (inflight C (snd (runC steps cs))) \<subseteq> set (inflight C cs)"
proof (induction steps arbitrary: cs)
  case Nil
  then show ?case by simp
next
  case (Cons x xs)
  from stepC_inv [OF Cons.prems, of x]
  have a: "C \<in> revoked (table (c_state (snd (stepC x cs))))"
    and b: "set (inflight C (snd (stepC x cs))) \<subseteq> set (inflight C cs)" by simp_all
  from Cons.IH [OF a]
  have c: "C \<in> revoked (table (c_state (snd (runC xs (snd (stepC x cs))))))"
    and d: "set (inflight C (snd (runC xs (snd (stepC x cs))))) \<subseteq> set (inflight C (snd (stepC x cs)))"
    by simp_all
  from d b have "set (inflight C (snd (runC xs (snd (stepC x cs))))) \<subseteq> set (inflight C cs)"
    by (rule subset_trans)
  with c show ?case unfolding runC_snd by (rule conjI)
qed

lemma stepC_revoke:
  assumes "map_of (c_pending cs1) k = None" and "V rq = 1" and "Method rq = ''fs.revoke''"
    and "asString (Params rq) ''cap_id'' = C" and "C \<noteq> []"
  shows "C \<in> revoked (table (c_state (snd (stepC (Begin k E rq) cs1))))"
proof -
  from assms(3) have nb: "beginHandler E rq (c_state cs1) = None" by (simp add: beginHandler_def)
  obtain r s' where fr: "fs_revoke rq (c_state cs1) = (r, s')" by (cases "fs_revoke rq (c_state cs1)")
  from fs_revoke_adds [OF assms(4) assms(5), of "c_state cs1"] fr have "C \<in> revoked (table s')" by simp
  with assms(1,2,3) nb fr show ?thesis by simp
qed

text \<open>
  Claim C4 (revocation is immediate), as the code has it. Connections run concurrently,
  and a handler holds no lock between its revocation check and its file operation. Take
  any point at which capability \<open>C\<close> is in the revoked set (which \<^verbatim>\<open>fs.revoke\<close> with that
  \<^verbatim>\<open>cap_id\<close> and \<open>Revoke\<close> put it in), and any interleaving of steps of any connections
  from there. Then \<open>C\<close> is still revoked at the end; the only connections that can be
  between the revocation check and the file operation for \<open>C\<close> are ones that were there
  already at the start; and every other handler that is at work on a request under \<open>C\<close>
  has its revocation check still before it, and its next step changes nothing in the
  state (no call of the operating system, no change of the table) and either answers
  with an error or leaves the handler before its check. The revocation check itself,
  made for \<open>C\<close> at any such point, answers with code 3, "capability revoked". The first
  step of a new \<^verbatim>\<open>fs.open\<close>, \<^verbatim>\<open>fs.list\<close> or \<^verbatim>\<open>fs.read\<close> under \<open>C\<close> writes nothing to the
  log of operating-system calls, leaves the table as it is, and answers with an error or
  leaves the handler before its check. A handler for a request under \<open>C\<close> that runs
  from such a point without interruption answers with an error, writes nothing to the
  log and leaves the table as it is; the error is code 3, "capability revoked", whenever
  the request gets as far as the revocation check.
\<close>

theorem revocation_immediacy:
  assumes "C \<in> revoked (table (c_state cs0))" and "cs = snd (runC steps cs0)" and "s = c_state cs"
    and "extractClaims E req = Inr (Some c)" and "ID c = C"
    and "asString (Params req) ''path'' = p" and "asString (Params req) ''handle'' = h"
  shows "C \<in> revoked (table s)
     \<and> set (inflight C cs) \<subseteq> set (inflight C cs0)
     \<and> (\<forall>k E' rq pd. map_of (c_pending cs) k = Some (E', rq, pd) \<longrightarrow> under C pd \<longrightarrow>
            k \<notin> set (inflight C cs0) \<longrightarrow>
            \<not> past C pd \<and> snd (advance E' rq pd s) = s
            \<and> (case fst (advance E' rq pd s) of
                  Inl r \<Rightarrow> \<exists>resp. r = Reply resp \<and> \<not> OK resp
                | Inr pd' \<Rightarrow> under C pd' \<and> \<not> past C pd'))
     \<and> (\<forall>E' rq q entry. e_capID entry = C \<longrightarrow>
            advance E' rq (OpenRevoked q C) s =
              (Inl (Reply (ErrorResponse (ReqID rq) 3 ''capability revoked'')), s)
          \<and> advance E' rq (ListRevoked q C) s =
              (Inl (Reply (ErrorResponse (ReqID rq) 3 ''capability revoked'')), s)
          \<and> advance E' rq (ReadRevoked entry) s =
              (Inl (Reply (ErrorResponse (ReqID rq) 3 ''capability revoked'')), s))
     \<and> (table (snd (fs_open_begin E req s)) = table s \<and> oslog (snd (fs_open_begin E req s)) = oslog s
          \<and> (case fst (fs_open_begin E req s) of
                Inl r \<Rightarrow> \<exists>resp. r = Reply resp \<and> \<not> OK resp
              | Inr pd \<Rightarrow> under C pd \<and> \<not> past C pd))
     \<and> (table (snd (fs_list_begin E req s)) = table s \<and> oslog (snd (fs_list_begin E req s)) = oslog s
          \<and> (case fst (fs_list_begin E req s) of
                Inl r \<Rightarrow> \<exists>resp. r = Reply resp \<and> \<not> OK resp
              | Inr pd \<Rightarrow> under C pd \<and> \<not> past C pd))
     \<and> (table (snd (fs_read_begin E req s)) = table s \<and> oslog (snd (fs_read_begin E req s)) = oslog s
          \<and> (case fst (fs_read_begin E req s) of
                Inl r \<Rightarrow> \<exists>resp. r = Reply resp \<and> \<not> OK resp
              | Inr pd \<Rightarrow> under C pd \<and> \<not> past C pd))
     \<and> (\<exists>resp. fst (fs_open E req s) = Reply resp \<and> \<not> OK resp
            \<and> oslog (snd (fs_open E req s)) = oslog s \<and> table (snd (fs_open E req s)) = table s
            \<and> (p \<noteq> [] \<longrightarrow>
                 fst (Authorize (e_lib E) (e_clock E) (Some c) ''fs.open'' [''path'' \<mapsto> VString p] (limiter s)) = None \<longrightarrow>
                 resp = ErrorResponse (ReqID req) 3 ''capability revoked''))
     \<and> (\<exists>resp. fst (fs_list E req s) = Reply resp \<and> \<not> OK resp
            \<and> oslog (snd (fs_list E req s)) = oslog s \<and> table (snd (fs_list E req s)) = table s
            \<and> (p \<noteq> [] \<longrightarrow>
                 fst (Authorize (e_lib E) (e_clock E) (Some c) ''fs.list'' [''path'' \<mapsto> VString p] (limiter s)) = None \<longrightarrow>
                 resp = ErrorResponse (ReqID req) 3 ''capability revoked''))
     \<and> (\<exists>resp. fst (fs_read E req s) = Reply resp \<and> \<not> OK resp
            \<and> oslog (snd (fs_read E req s)) = oslog s \<and> table (snd (fs_read E req s)) = table s
            \<and> (h \<noteq> [] \<longrightarrow>
                 fst (Authorize (e_lib E) (e_clock E) (Some c) ''fs.read'' Map.empty (limiter s)) = None \<longrightarrow>
                 (\<exists>entry. handles (table s) h = Some entry \<and> e_capID entry = C) \<longrightarrow>
                 resp = ErrorResponse (ReqID req) 3 ''capability revoked''))
     \<and> (\<forall>k E' rq cs1. map_of (c_pending cs1) k = None \<longrightarrow> V rq = 1 \<longrightarrow>
            Method rq = ''fs.revoke'' \<longrightarrow> asString (Params rq) ''cap_id'' = C \<longrightarrow> C \<noteq> [] \<longrightarrow>
            C \<in> revoked (table (c_state (snd (stepC (Begin k E' rq) cs1)))))
     \<and> (\<forall>rq s1. asString (Params rq) ''cap_id'' = C \<longrightarrow> C \<noteq> [] \<longrightarrow>
            C \<in> revoked (table (snd (fs_revoke rq s1))))
     \<and> (\<forall>ht. C \<in> revoked (handleTable_Revoke C ht))"
proof (intro conjI)
  from runC_inv [OF assms(1), of steps]
  have rv0: "C \<in> revoked (table (c_state (snd (runC steps cs0))))"
    and sb0: "set (inflight C (snd (runC steps cs0))) \<subseteq> set (inflight C cs0)" by simp_all
  from rv0 show rv: "C \<in> revoked (table s)" unfolding assms(2,3) .
  from sb0 show sb: "set (inflight C cs) \<subseteq> set (inflight C cs0)" unfolding assms(2) .
  have rc: "ID c \<in> revoked (table s)" unfolding assms(5) by (rule rv)
  show "\<forall>k E' rq pd. map_of (c_pending cs) k = Some (E', rq, pd) \<longrightarrow> under C pd \<longrightarrow>
            k \<notin> set (inflight C cs0) \<longrightarrow>
            \<not> past C pd \<and> snd (advance E' rq pd s) = s
            \<and> (case fst (advance E' rq pd s) of
                  Inl r \<Rightarrow> \<exists>resp. r = Reply resp \<and> \<not> OK resp
                | Inr pd' \<Rightarrow> under C pd' \<and> \<not> past C pd')"
  proof (intro allI impI)
    fix k :: nat and E' :: env and rq :: Request and pd :: pending
    assume m: "map_of (c_pending cs) k = Some (E', rq, pd)" and u: "under C pd"
      and n: "k \<notin> set (inflight C cs0)"
    have np: "\<not> past C pd"
    proof
      assume "past C pd"
      with m have "k \<in> set (inflight C cs)" by (rule inflight_mem)
      with sb have "k \<in> set (inflight C cs0)" by (rule subsetD)
      with n show False by contradiction
    qed
    from advance_under [OF rv u np, of E' rq] np
    show "\<not> past C pd \<and> snd (advance E' rq pd s) = s
            \<and> (case fst (advance E' rq pd s) of
                  Inl r \<Rightarrow> \<exists>resp. r = Reply resp \<and> \<not> OK resp
                | Inr pd' \<Rightarrow> under C pd' \<and> \<not> past C pd')"
      by (intro conjI) (elim conjE, assumption)+
  qed
  show "\<forall>E' rq q entry. e_capID entry = C \<longrightarrow>
            advance E' rq (OpenRevoked q C) s =
              (Inl (Reply (ErrorResponse (ReqID rq) 3 ''capability revoked'')), s)
          \<and> advance E' rq (ListRevoked q C) s =
              (Inl (Reply (ErrorResponse (ReqID rq) 3 ''capability revoked'')), s)
          \<and> advance E' rq (ReadRevoked entry) s =
              (Inl (Reply (ErrorResponse (ReqID rq) 3 ''capability revoked'')), s)"
    using advance_check [OF rv] by (intro allI impI conjI)
  from begin_under [OF assms(4), of s] begin_keeps [of E req s]
  show "table (snd (fs_open_begin E req s)) = table s" 
    and "oslog (snd (fs_open_begin E req s)) = oslog s"
    and "case fst (fs_open_begin E req s) of
                Inl r \<Rightarrow> \<exists>resp. r = Reply resp \<and> \<not> OK resp
              | Inr pd \<Rightarrow> under C pd \<and> \<not> past C pd"
    and "table (snd (fs_list_begin E req s)) = table s" 
    and "oslog (snd (fs_list_begin E req s)) = oslog s"
    and "case fst (fs_list_begin E req s) of
                Inl r \<Rightarrow> \<exists>resp. r = Reply resp \<and> \<not> OK resp
              | Inr pd \<Rightarrow> under C pd \<and> \<not> past C pd"
    and "table (snd (fs_read_begin E req s)) = table s" 
    and "oslog (snd (fs_read_begin E req s)) = oslog s"
    and "case fst (fs_read_begin E req s) of
                Inl r \<Rightarrow> \<exists>resp. r = Reply resp \<and> \<not> OK resp
              | Inr pd \<Rightarrow> under C pd \<and> \<not> past C pd"
    unfolding assms(5) by simp_all
  show "\<exists>resp. fst (fs_open E req s) = Reply resp \<and> \<not> OK resp
            \<and> oslog (snd (fs_open E req s)) = oslog s \<and> table (snd (fs_open E req s)) = table s
            \<and> (p \<noteq> [] \<longrightarrow>
                 fst (Authorize (e_lib E) (e_clock E) (Some c) ''fs.open'' [''path'' \<mapsto> VString p] (limiter s)) = None \<longrightarrow>
                 resp = ErrorResponse (ReqID req) 3 ''capability revoked'')"
    using assms(4) rc assms(6) by (rule fs_open_after_revoke)
  show "\<exists>resp. fst (fs_list E req s) = Reply resp \<and> \<not> OK resp
            \<and> oslog (snd (fs_list E req s)) = oslog s \<and> table (snd (fs_list E req s)) = table s
            \<and> (p \<noteq> [] \<longrightarrow>
                 fst (Authorize (e_lib E) (e_clock E) (Some c) ''fs.list'' [''path'' \<mapsto> VString p] (limiter s)) = None \<longrightarrow>
                 resp = ErrorResponse (ReqID req) 3 ''capability revoked'')"
    using assms(4) rc assms(6) by (rule fs_list_after_revoke)
  show "\<exists>resp. fst (fs_read E req s) = Reply resp \<and> \<not> OK resp
            \<and> oslog (snd (fs_read E req s)) = oslog s \<and> table (snd (fs_read E req s)) = table s
            \<and> (h \<noteq> [] \<longrightarrow>
                 fst (Authorize (e_lib E) (e_clock E) (Some c) ''fs.read'' Map.empty (limiter s)) = None \<longrightarrow>
                 (\<exists>entry. handles (table s) h = Some entry \<and> e_capID entry = C) \<longrightarrow>
                 resp = ErrorResponse (ReqID req) 3 ''capability revoked'')"
    using fs_read_after_revoke [OF assms(4) rc assms(7)] unfolding assms(5) .
  show "\<forall>k E' rq cs1. map_of (c_pending cs1) k = None \<longrightarrow> V rq = 1 \<longrightarrow>
            Method rq = ''fs.revoke'' \<longrightarrow> asString (Params rq) ''cap_id'' = C \<longrightarrow> C \<noteq> [] \<longrightarrow>
            C \<in> revoked (table (c_state (snd (stepC (Begin k E' rq) cs1))))"
    by (intro allI impI) (rule stepC_revoke)
  show "\<forall>rq s1. asString (Params rq) ''cap_id'' = C \<longrightarrow> C \<noteq> [] \<longrightarrow>
            C \<in> revoked (table (snd (fs_revoke rq s1)))"
    by (intro allI impI) (rule fs_revoke_adds)
  show "\<forall>ht. C \<in> revoked (handleTable_Revoke C ht)"
    by (simp add: handleTable_Revoke_def)
qed

text \<open>The second race, one second on: the read that was past its check when the
  capability was revoked lands, and the read of the same handle that connection 3 started
  after the revocation has reached its revocation check and is refused there.\<close>

theorem revocation_immediacy_witness:
  "''c1'' \<in> revoked (table (c_state midRace))
   \<and> extractClaims (demoEnv 1) (readReq demoClaims) = Inr (Some demoClaims)
   \<and> ID demoClaims = ''c1''
   \<and> asString (Params (readReq demoClaims)) ''handle'' = ''h1'' \<and> ''h1'' \<noteq> []
   \<and> inflight ''c1'' midRace = [1]
   \<and> fst (runC laterSteps midRace) =
        [Reply (SuccessResponse ''r'' (VObject [(''data'', VString ''hello''), (''bytes_read'', VNumber 5)]))]
   \<and> map (\<lambda>x. (fst x, snd (snd (snd x)))) (c_pending afterLater) =
        [(2, ListDir ''/tmp'' ''c2''), (3, ReadRevoked demoEntry)]
   \<and> e_capID demoEntry = ''c1''
   \<and> fst (Authorize (e_lib (demoEnv 1)) (e_clock (demoEnv 1)) (Some demoClaims) ''fs.read''
            Map.empty (limiter (c_state afterLater))) = None
   \<and> handles (table (c_state afterLater)) ''h1'' = Some demoEntry
   \<and> ''c1'' \<in> revoked (table (c_state afterLater))
   \<and> set (inflight ''c1'' afterLater) \<subseteq> set (inflight ''c1'' midRace)
   \<and> advance (demoEnv 1) (readReq demoClaims) (ReadRevoked demoEntry) (c_state afterLater) =
        (Inl (Reply (ErrorResponse (ReqID (readReq demoClaims)) 3 ''capability revoked'')),
         c_state afterLater)
   \<and> fst (fs_read (demoEnv 1) (readReq demoClaims) (c_state afterLater)) =
        Reply (ErrorResponse (ReqID (readReq demoClaims)) 3 ''capability revoked'')
   \<and> oslog (snd (fs_read (demoEnv 1) (readReq demoClaims) (c_state afterLater))) =
        oslog (c_state afterLater)"
proof -
  have A: "case midRace of cs \<Rightarrow> ''c1'' \<in> revoked (table (c_state cs)) \<and> inflight ''c1'' cs = [1]"
    by code_simp
  then have a: "''c1'' \<in> revoked (table (c_state midRace))" and i: "inflight ''c1'' midRace = [1]"
    by simp_all
  have b: "afterLater = snd (runC laterSteps midRace)" by (simp add: afterLater_def)
  have b2: "c_state afterLater = c_state afterLater" by simp
  have c: "extractClaims (demoEnv 1) (readReq demoClaims) = Inr (Some demoClaims)" by code_simp
  have d: "ID demoClaims = ''c1''" by (simp add: demoClaims_def)
  have p: "asString (Params (readReq demoClaims)) ''path'' = []" by code_simp
  have h: "asString (Params (readReq demoClaims)) ''handle'' = ''h1''" by code_simp
  have n: "''h1'' \<noteq> []" by simp
  have B: "case runC laterSteps midRace of (rs, cs) \<Rightarrow>
        rs = [Reply (SuccessResponse ''r'' (VObject [(''data'', VString ''hello''), (''bytes_read'', VNumber 5)]))]
      \<and> map (\<lambda>x. (fst x, snd (snd (snd x)))) (c_pending cs) =
            [(2, ListDir ''/tmp'' ''c2''), (3, ReadRevoked demoEntry)]
      \<and> fst (Authorize (e_lib (demoEnv 1)) (e_clock (demoEnv 1)) (Some demoClaims) ''fs.read''
            Map.empty (limiter (c_state cs))) = None
      \<and> handles (table (c_state cs)) ''h1'' = Some demoEntry"
    by code_simp
  note B' = B [unfolded case_prod_beta, folded afterLater_def]
  from B' have l: "fst (runC laterSteps midRace) =
        [Reply (SuccessResponse ''r'' (VObject [(''data'', VString ''hello''), (''bytes_read'', VNumber 5)]))]"
    by (elim conjE)
  from B' have m: "map (\<lambda>x. (fst x, snd (snd (snd x)))) (c_pending afterLater) =
        [(2, ListDir ''/tmp'' ''c2''), (3, ReadRevoked demoEntry)]" by (elim conjE)
  have ec: "e_capID demoEntry = ''c1''" by (simp add: demoEntry_def)
  from B' have au: "fst (Authorize (e_lib (demoEnv 1)) (e_clock (demoEnv 1)) (Some demoClaims) ''fs.read''
            Map.empty (limiter (c_state afterLater))) = None" by (elim conjE)
  from B' have en: "handles (table (c_state afterLater)) ''h1'' = Some demoEntry" by (elim conjE)
  have ex: "\<exists>entry. handles (table (c_state afterLater)) ''h1'' = Some entry \<and> e_capID entry = ''c1''"
    using en ec by (intro exI [of _ demoEntry] conjI)
  note T = revocation_immediacy [OF a b b2 c d p h]
  from T have t1: "''c1'' \<in> revoked (table (c_state afterLater))" by (elim conjE)
  from T have t2: "set (inflight ''c1'' afterLater) \<subseteq> set (inflight ''c1'' midRace)" by (elim conjE)
  from T have t3: "\<forall>E' rq q entry. e_capID entry = ''c1'' \<longrightarrow>
            advance E' rq (OpenRevoked q ''c1'') (c_state afterLater) =
              (Inl (Reply (ErrorResponse (ReqID rq) 3 ''capability revoked'')), c_state afterLater)
          \<and> advance E' rq (ListRevoked q ''c1'') (c_state afterLater) =
              (Inl (Reply (ErrorResponse (ReqID rq) 3 ''capability revoked'')), c_state afterLater)
          \<and> advance E' rq (ReadRevoked entry) (c_state afterLater) =
              (Inl (Reply (ErrorResponse (ReqID rq) 3 ''capability revoked'')), c_state afterLater)"
    by (elim conjE)
  from t3 ec have t4: "advance (demoEnv 1) (readReq demoClaims) (ReadRevoked demoEntry) (c_state afterLater) =
        (Inl (Reply (ErrorResponse (ReqID (readReq demoClaims)) 3 ''capability revoked'')),
         c_state afterLater)" by blast
  from T
  obtain resp where r1: "fst (fs_read (demoEnv 1) (readReq demoClaims) (c_state afterLater)) = Reply resp"
    and r3: "oslog (snd (fs_read (demoEnv 1) (readReq demoClaims) (c_state afterLater))) = oslog (c_state afterLater)"
    and ri: "''h1'' \<noteq> [] \<longrightarrow>
       fst (Authorize (e_lib (demoEnv 1)) (e_clock (demoEnv 1)) (Some demoClaims) ''fs.read''
            Map.empty (limiter (c_state afterLater))) = None \<longrightarrow>
       (\<exists>entry. handles (table (c_state afterLater)) ''h1'' = Some entry \<and> e_capID entry = ''c1'') \<longrightarrow>
       resp = ErrorResponse (ReqID (readReq demoClaims)) 3 ''capability revoked''"
    by (elim conjE exE)
  from ri n au ex have "resp = ErrorResponse (ReqID (readReq demoClaims)) 3 ''capability revoked''"
    by (elim impE) assumption+
  with r1 have f: "fst (fs_read (demoEnv 1) (readReq demoClaims) (c_state afterLater)) =
        Reply (ErrorResponse (ReqID (readReq demoClaims)) 3 ''capability revoked'')" by simp
  from a c d h n i l m ec au en t1 t2 t4 f r3 show ?thesis by (intro conjI)
qed

text \<open>
  The claim as it is written, "no successful call under \<open>C\<close> lands after the revocation
  point", fails. An \<^verbatim>\<open>fs.open\<close> under the first sample capability passes its revocation
  check; then \<^verbatim>\<open>fs.revoke\<close> is answered and the capability is in the revoked set, while
  no file has been opened yet; then the open goes on, calls \<^verbatim>\<open>os.Open\<close> and answers with
  the handle \<^verbatim>\<open>h1\<close>. In the same way a read of a handle that the capability had opened
  before returns the bytes of the file after the revocation was answered.
\<close>

theorem revocation_race_counterexample:
  "extractClaims (demoEnv 0) openReq = Inr (Some demoClaims) \<and> ID demoClaims = ''c1''
   \<and> fst (runC (take 3 openRace) (idle initState)) =
        [Reply (SuccessResponse ''r'' (VObject [(''status'', VString ''revoked'')]))]
   \<and> ''c1'' \<in> revoked (table (c_state (snd (runC (take 3 openRace) (idle initState)))))
   \<and> oslog (c_state (snd (runC (take 3 openRace) (idle initState)))) = []
   \<and> fst (runC openRace (idle initState)) =
        [Reply (SuccessResponse ''r'' (VObject [(''status'', VString ''revoked'')])),
         Reply (SuccessResponse ''r'' (VObject [(''handle'', VString ''h1'')]))]
   \<and> oslog (c_state (snd (runC openRace (idle initState)))) = [OsOpen ''/tmp/x'']
   \<and> extractClaims (demoEnv 0) (readReq demoClaims) = Inr (Some demoClaims)
   \<and> fst (runC (take 4 readRace) (idle afterOpen)) =
        [Reply (SuccessResponse ''r'' (VObject [(''status'', VString ''revoked'')]))]
   \<and> ''c1'' \<in> revoked (table (c_state (snd (runC (take 4 readRace) (idle afterOpen)))))
   \<and> oslog (c_state (snd (runC (take 4 readRace) (idle afterOpen)))) = [OsOpen ''/tmp/x'']
   \<and> fst (runC readRace (idle afterOpen)) =
        [Reply (SuccessResponse ''r'' (VObject [(''status'', VString ''revoked'')])),
         Reply (SuccessResponse ''r'' (VObject [(''data'', VString ''hello''), (''bytes_read'', VNumber 5)]))]
   \<and> oslog (c_state (snd (runC readRace (idle afterOpen)))) = [FileReadAt 3 4096 0, OsOpen ''/tmp/x'']"
proof -
  have a: "extractClaims (demoEnv 0) openReq = Inr (Some demoClaims)" by code_simp
  have b: "ID demoClaims = ''c1''" by (simp add: demoClaims_def)
  have A: "case runC (take 3 openRace) (idle initState) of (rs, cs) \<Rightarrow>
        rs = [Reply (SuccessResponse ''r'' (VObject [(''status'', VString ''revoked'')]))]
      \<and> ''c1'' \<in> revoked (table (c_state cs)) \<and> oslog (c_state cs) = []"
    by code_simp
  note A' = A [unfolded case_prod_beta]
  from A' have c: "fst (runC (take 3 openRace) (idle initState)) =
        [Reply (SuccessResponse ''r'' (VObject [(''status'', VString ''revoked'')]))]" by (elim conjE)
  from A' have d: "''c1'' \<in> revoked (table (c_state (snd (runC (take 3 openRace) (idle initState)))))"
    by (elim conjE)
  from A' have e: "oslog (c_state (snd (runC (take 3 openRace) (idle initState)))) = []" by (elim conjE)
  have B: "case runC openRace (idle initState) of (rs, cs) \<Rightarrow>
        rs = [Reply (SuccessResponse ''r'' (VObject [(''status'', VString ''revoked'')])),
              Reply (SuccessResponse ''r'' (VObject [(''handle'', VString ''h1'')]))]
      \<and> oslog (c_state cs) = [OsOpen ''/tmp/x'']"
    by code_simp
  note B' = B [unfolded case_prod_beta]
  from B' have f: "fst (runC openRace (idle initState)) =
        [Reply (SuccessResponse ''r'' (VObject [(''status'', VString ''revoked'')])),
         Reply (SuccessResponse ''r'' (VObject [(''handle'', VString ''h1'')]))]" by (elim conjE)
  from B' have g: "oslog (c_state (snd (runC openRace (idle initState)))) = [OsOpen ''/tmp/x'']"
    by (elim conjE)
  have h: "extractClaims (demoEnv 0) (readReq demoClaims) = Inr (Some demoClaims)" by code_simp
  have C: "case runC (take 4 readRace) (idle afterOpen) of (rs, cs) \<Rightarrow>
        rs = [Reply (SuccessResponse ''r'' (VObject [(''status'', VString ''revoked'')]))]
      \<and> ''c1'' \<in> revoked (table (c_state cs)) \<and> oslog (c_state cs) = [OsOpen ''/tmp/x'']"
    by code_simp
  note C' = C [unfolded case_prod_beta]
  from C' have i: "fst (runC (take 4 readRace) (idle afterOpen)) =
        [Reply (SuccessResponse ''r'' (VObject [(''status'', VString ''revoked'')]))]" by (elim conjE)
  from C' have j: "''c1'' \<in> revoked (table (c_state (snd (runC (take 4 readRace) (idle afterOpen)))))"
    by (elim conjE)
  from C' have k: "oslog (c_state (snd (runC (take 4 readRace) (idle afterOpen)))) = [OsOpen ''/tmp/x'']"
    by (elim conjE)
  have D: "case runC readRace (idle afterOpen) of (rs, cs) \<Rightarrow>
        rs = [Reply (SuccessResponse ''r'' (VObject [(''status'', VString ''revoked'')])),
              Reply (SuccessResponse ''r'' (VObject [(''data'', VString ''hello''), (''bytes_read'', VNumber 5)]))]
      \<and> oslog (c_state cs) = [FileReadAt 3 4096 0, OsOpen ''/tmp/x'']"
    by code_simp
  note D' = D [unfolded case_prod_beta]
  from D' have l: "fst (runC readRace (idle afterOpen)) =
        [Reply (SuccessResponse ''r'' (VObject [(''status'', VString ''revoked'')])),
         Reply (SuccessResponse ''r'' (VObject [(''data'', VString ''hello''), (''bytes_read'', VNumber 5)]))]"
    by (elim conjE)
  from D' have m: "oslog (c_state (snd (runC readRace (idle afterOpen)))) = [FileReadAt 3 4096 0, OsOpen ''/tmp/x'']"
    by (elim conjE)
  from a b c d e f g h i j k l m show ?thesis by (intro conjI)
qed

section \<open>The verifier\<close>






section \<open>The handle table\<close>













section \<open>The token codec\<close>

lemma decodeMap_encode_all: "list_all (\<lambda>v. decodeMap (encodeURL ! v) = Some v) [0..<64]"
  by code_simp

lemma decodeMap_encode: "v < 64 \<Longrightarrow> decodeMap (encodeURL ! v) = Some v"
  using decodeMap_encode_all by (simp add: list_all_iff)

lemma scanSextets_encode:
  "\<forall>v \<in> set vs. v < 64 \<Longrightarrow> scanSextets (map (\<lambda>v. encodeURL ! v) vs) i = Inr vs"
  by (induction vs arbitrary: i) (simp_all add: decodeMap_encode)

lemma sextet_bounds:
  fixes a b c :: nat
  assumes "a < 256" and "b < 256" and "c < 256"
  shows "a div 4 < 64" and "(a mod 4) * 16 + b div 16 < 64"
    and "(b mod 16) * 4 + c div 64 < 64" and "c mod 64 < 64"
    and "(b mod 16) * 4 < 64" and "(a mod 4) * 16 < 64"
proof -
  from assms(1) show "a div 4 < 64" by arith
  from assms(1,2) show "(a mod 4) * 16 + b div 16 < 64" by arith
  from assms(2,3) show "(b mod 16) * 4 + c div 64 < 64" by arith
  show "c mod 64 < 64" by simp
  show "(b mod 16) * 4 < 64" by arith
  show "(a mod 4) * 16 < 64" by arith
qed

lemma sextets_less: "\<forall>b \<in> set bs. b < 256 \<Longrightarrow> \<forall>v \<in> set (sextets bs). v < 64"
proof (induction bs rule: sextets.induct)
  case (1 a b c bs)
  then have l: "a < 256" "b < 256" "c < 256" and r: "\<forall>v \<in> set (sextets bs). v < 64" by simp_all
  from sextet_bounds(1-4) [OF l] r show ?case by simp
next
  case (2 a b)
  then have l: "a < 256" "b < 256" by simp_all
  from sextet_bounds(1,2,5) [OF l l(2)] show ?case by simp
next
  case (3 a)
  then have l: "a < 256" by simp
  from sextet_bounds(1,6) [OF l l l] show ?case by simp
next
  case 4
  show ?case by simp
qed

lemma octets_sextets: "\<forall>b \<in> set bs. b < 256 \<Longrightarrow> octets (sextets bs) = Some bs"
proof (induction bs rule: sextets.induct)
  case (1 a b c bs)
  then have "a < 256" "b < 256" "c < 256" and r: "octets (sextets bs) = Some bs" by simp_all
  then show ?case by simp
next
  case (2 a b)
  then have "a < 256" "b < 256" by simp_all
  then show ?case by simp
next
  case (3 a)
  then have "a < 256" by simp
  then show ?case by simp
next
  case 4
  show ?case by simp
qed

lemma DecodeString_EncodeToString: "DecodeString (EncodeToString src) = Inr src"
proof -
  let ?bs = "map of_char src :: nat list"
  have lt: "\<forall>b \<in> set ?bs. b < 256" by (simp add: String.nat_of_char_less_256)
  have sc: "scanSextets (EncodeToString src) 0 = Inr (sextets ?bs)"
    unfolding EncodeToString_def using sextets_less [OF lt] by (rule scanSextets_encode)
  have oc: "octets (sextets ?bs) = Some ?bs" using lt by (rule octets_sextets)
  have "map char_of ?bs = src" by (simp add: map_idI)
  with sc oc show ?thesis by (simp add: DecodeString_def)
qed

lemma HasPrefix_append: "HasPrefix (p @ r) p"
  by (simp add: HasPrefix_iff)

lemma Verify_needs_header:
  "take (length v2PublicHeader) token \<noteq> v2PublicHeader \<Longrightarrow>
   Verify K token key = Inl ''invalid token header''"
  by (auto simp: Verify_def HasPrefix_iff)

lemma Verify_accepts:
  assumes "Verify K token key = Inr c"
  shows "HasPrefix token v2PublicHeader
       \<and> (\<exists>body. DecodeString (drop (length v2PublicHeader) token) = Inr body
             \<and> SignatureSize \<le> length body
             \<and> ed25519_Verify K key
                  (pae [v2PublicHeader, take (length body - SignatureSize) body, []])
                  (drop (length body - SignatureSize) body)
             \<and> json_Unmarshal K (take (length body - SignatureSize) body) = Inr c)"
proof -
  from assms have h: "HasPrefix token v2PublicHeader"
    by (auto simp: Verify_def split: if_splits)
  with assms obtain body where d: "DecodeString (drop (length v2PublicHeader) token) = Inr body"
    by (cases "DecodeString (drop (length v2PublicHeader) token)") (auto simp: Verify_def)
  from assms h d have l: "SignatureSize \<le> length body"
    by (auto simp: Verify_def split: if_splits)
  from assms h d l have v: "ed25519_Verify K key
        (pae [v2PublicHeader, take (length body - SignatureSize) body, []])
        (drop (length body - SignatureSize) body)"
    by (auto simp: Verify_def Let_def split: if_splits)
  from assms h d l v have "json_Unmarshal K (take (length body - SignatureSize) body) = Inr c"
    by (auto simp: Verify_def Let_def split: if_splits sum.splits)
  with h d l v show ?thesis by blast
qed

lemma Verify_of_body:
  assumes "HasPrefix token v2PublicHeader"
    and "DecodeString (drop (length v2PublicHeader) token) = Inr (msg @ sig)"
    and "length sig = SignatureSize"
    and "ed25519_Verify K key (pae [v2PublicHeader, msg, []]) sig"
    and "json_Unmarshal K msg = Inr c"
  shows "Verify K token key = Inr c"
  using assms by (simp add: Verify_def Let_def)

lemma Sign_body:
  assumes "json_Marshal K c = Inr msg"
    and "length (ed25519_Sign K sk (pae [v2PublicHeader, msg, []])) = SignatureSize"
  shows "Sign K c sk =
           Inr (v2PublicHeader @ EncodeToString (msg @ ed25519_Sign K sk (pae [v2PublicHeader, msg, []])))"
  using assms by (simp add: Sign_def Let_def)

lemma Verify_decode_error:
  assumes "HasPrefix token v2PublicHeader"
    and "DecodeString (drop (length v2PublicHeader) token) = Inl n"
  shows "Verify K token key = Inl (''decode token: '' @ CorruptInputError n)"
  using assms by (simp add: Verify_def)

text \<open>
  Claim C5, as the code has it. Let the claims serialise to \<open>msg\<close> and \<open>msg\<close> read back
  as the same claims, and let the signature that \<open>sk\<close> makes over the pre-authentication
  encoding be 64 bytes that verify under \<open>pk\<close>. Then \<open>Sign\<close> returns the header followed
  by the base64 of message and signature, and \<open>Verify\<close> of that token returns the claims
  unchanged. A token whose first ten bytes are not the header fails, and so does one
  whose rest is not base64. \<open>Verify\<close> accepts a token only if the signature check accepts
  the last 64 decoded bytes over the bytes before them. And it accepts every token with
  the header whose rest decodes to the signed body: what counts is the decoded body, not
  the characters of the token.
\<close>

theorem token_round_trip:
  assumes m: "json_Marshal K c = Inr msg" and u: "json_Unmarshal K msg = Inr c"
    and sl: "length (ed25519_Sign K sk (pae [v2PublicHeader, msg, []])) = SignatureSize"
    and ok: "ed25519_Verify K pk (pae [v2PublicHeader, msg, []])
               (ed25519_Sign K sk (pae [v2PublicHeader, msg, []]))"
    and body: "body = msg @ ed25519_Sign K sk (pae [v2PublicHeader, msg, []])"
  shows "Sign K c sk = Inr (v2PublicHeader @ EncodeToString body)
     \<and> Verify K (v2PublicHeader @ EncodeToString body) pk = Inr c
     \<and> (\<forall>t. take (length v2PublicHeader) t \<noteq> v2PublicHeader \<longrightarrow>
            Verify K t pk = Inl ''invalid token header'')
     \<and> (\<forall>t n. HasPrefix t v2PublicHeader \<longrightarrow>
            DecodeString (drop (length v2PublicHeader) t) = Inl n \<longrightarrow>
            Verify K t pk = Inl (''decode token: '' @ CorruptInputError n))
     \<and> (\<forall>t c'. Verify K t pk = Inr c' \<longrightarrow>
            HasPrefix t v2PublicHeader
          \<and> (\<exists>b. DecodeString (drop (length v2PublicHeader) t) = Inr b
                \<and> SignatureSize \<le> length b
                \<and> ed25519_Verify K pk
                     (pae [v2PublicHeader, take (length b - SignatureSize) b, []])
                     (drop (length b - SignatureSize) b)
                \<and> json_Unmarshal K (take (length b - SignatureSize) b) = Inr c'))
     \<and> (\<forall>t. HasPrefix t v2PublicHeader \<longrightarrow>
            DecodeString (drop (length v2PublicHeader) t) = Inr body \<longrightarrow>
            Verify K t pk = Inr c)"
proof (intro conjI allI impI)
  let ?sig = "ed25519_Sign K sk (pae [v2PublicHeader, msg, []])"
  show "Sign K c sk = Inr (v2PublicHeader @ EncodeToString body)"
    unfolding body using m sl by (rule Sign_body)
  have acc: "Verify K t pk = Inr c"
    if "HasPrefix t v2PublicHeader" and "DecodeString (drop (length v2PublicHeader) t) = Inr body" for t
    using that(1) that(2) [unfolded body] sl ok u by (rule Verify_of_body)
  have "HasPrefix (v2PublicHeader @ EncodeToString body) v2PublicHeader"
    by (rule HasPrefix_append)
  moreover have "DecodeString (drop (length v2PublicHeader) (v2PublicHeader @ EncodeToString body)) = Inr body"
    by (simp add: DecodeString_EncodeToString)
  ultimately show "Verify K (v2PublicHeader @ EncodeToString body) pk = Inr c"
    by (rule acc)
  fix t
  assume "HasPrefix t v2PublicHeader" and "DecodeString (drop (length v2PublicHeader) t) = Inr body"
  then show "Verify K t pk = Inr c" by (rule acc)
next
  fix t
  assume "take (length v2PublicHeader) t \<noteq> v2PublicHeader"
  then show "Verify K t pk = Inl ''invalid token header''" by (rule Verify_needs_header)
next
  fix t n
  assume "HasPrefix t v2PublicHeader" and "DecodeString (drop (length v2PublicHeader) t) = Inl n"
  then show "Verify K t pk = Inl (''decode token: '' @ CorruptInputError n)"
    by (rule Verify_decode_error)
next
  fix t c'
  assume v: "Verify K t pk = Inr c'"
  from Verify_accepts [OF v] show "HasPrefix t v2PublicHeader" by (rule conjunct1)
  from Verify_accepts [OF v]
  show "\<exists>b. DecodeString (drop (length v2PublicHeader) t) = Inr b
                \<and> SignatureSize \<le> length b
                \<and> ed25519_Verify K pk
                     (pae [v2PublicHeader, take (length b - SignatureSize) b, []])
                     (drop (length b - SignatureSize) b)
                \<and> json_Unmarshal K (take (length b - SignatureSize) b) = Inr c'"
    by (rule conjunct2)
qed

text \<open>The sample capability under the sample key, and a token with another header.\<close>

theorem token_round_trip_witness:
  "json_Marshal stubCrypto demoClaims = Inr ''{c1}''
   \<and> json_Unmarshal stubCrypto ''{c1}'' = Inr demoClaims
   \<and> length (ed25519_Sign stubCrypto demoKey (pae [v2PublicHeader, ''{c1}'', []])) = SignatureSize
   \<and> ed25519_Verify stubCrypto demoKey (pae [v2PublicHeader, ''{c1}'', []])
        (ed25519_Sign stubCrypto demoKey (pae [v2PublicHeader, ''{c1}'', []]))
   \<and> Verify stubCrypto
        (v2PublicHeader @ EncodeToString
           (''{c1}'' @ ed25519_Sign stubCrypto demoKey (pae [v2PublicHeader, ''{c1}'', []])))
        demoKey = Inr demoClaims
   \<and> take (length v2PublicHeader) ''v1.public.abc'' \<noteq> v2PublicHeader
   \<and> Verify stubCrypto ''v1.public.abc'' demoKey = Inl ''invalid token header''"
proof -
  have m: "json_Marshal stubCrypto demoClaims = Inr ''{c1}''" by code_simp
  have u: "json_Unmarshal stubCrypto ''{c1}'' = Inr demoClaims" by code_simp
  have sl: "length (ed25519_Sign stubCrypto demoKey (pae [v2PublicHeader, ''{c1}'', []])) = SignatureSize"
    by code_simp
  have ok: "ed25519_Verify stubCrypto demoKey (pae [v2PublicHeader, ''{c1}'', []])
        (ed25519_Sign stubCrypto demoKey (pae [v2PublicHeader, ''{c1}'', []]))"
    by code_simp
  have h: "take (length v2PublicHeader) ''v1.public.abc'' \<noteq> v2PublicHeader" by code_simp
  note t = token_round_trip [OF m u sl ok refl]
  from t have v: "Verify stubCrypto
        (v2PublicHeader @ EncodeToString
           (''{c1}'' @ ed25519_Sign stubCrypto demoKey (pae [v2PublicHeader, ''{c1}'', []])))
        demoKey = Inr demoClaims"
    by (elim conjE)
  from t h have e: "Verify stubCrypto ''v1.public.abc'' demoKey = Inl ''invalid token header''"
    by blast
  from m u sl ok v h e show ?thesis by (intro conjI)
qed

text \<open>
  Not every changed byte makes \<open>Verify\<close> fail. The body of the sample token is 68 bytes,
  so its last base64 character carries two bits that belong to no byte; the decoder of
  \<^verbatim>\<open>RawURLEncoding\<close> does not look at them. The token with that character changed from
  \<^verbatim>\<open>A\<close> to \<^verbatim>\<open>B\<close> differs in one byte and verifies to the same claims.
\<close>

theorem token_byte_flip_counterexample:
  "Sign stubCrypto demoClaims demoKey = Inr (tokenOf demoClaims)
   \<and> Verify stubCrypto (tokenOf demoClaims) demoKey = Inr demoClaims
   \<and> length flippedToken = length (tokenOf demoClaims)
   \<and> butlast flippedToken = butlast (tokenOf demoClaims)
   \<and> last flippedToken \<noteq> last (tokenOf demoClaims)
   \<and> Verify stubCrypto flippedToken demoKey = Inr demoClaims"
proof (intro conjI)
  show "Sign stubCrypto demoClaims demoKey = Inr (tokenOf demoClaims)" by code_simp
  show "Verify stubCrypto (tokenOf demoClaims) demoKey = Inr demoClaims" by code_simp
  show "length flippedToken = length (tokenOf demoClaims)" by code_simp
  show "butlast flippedToken = butlast (tokenOf demoClaims)" by code_simp
  show "last flippedToken \<noteq> last (tokenOf demoClaims)" by code_simp
  show "Verify stubCrypto flippedToken demoKey = Inr demoClaims" by code_simp
qed

end
